theory Spec2Isabelle
  imports Main "HOL-Library.Sublist" "HOL-Library.Monad_Syntax"
begin

section \<open>Go primitives used by the formatter\<close>

text \<open>
  The formatter (\<^verbatim>\<open>src/main.go\<close>) works on Go strings, which are byte sequences; they are
  modelled as \<^typ>\<open>string\<close>.  A run-time panic of the Go program (a slice or an index out of
  range, a negative repeat count) is the value \<^term>\<open>None\<close>.
\<close>

abbreviation NL :: char where "NL \<equiv> CHR 0x0A"
abbreviation TAB :: char where "TAB \<equiv> CHR 0x09"
abbreviation SP :: char where "SP \<equiv> CHR 0x20"

text \<open>\<^verbatim>\<open>s[lo:hi]\<close>: panics unless \<open>0 \<le> lo \<le> hi \<le> len(s)\<close>.\<close>

definition goSlice :: "'a list \<Rightarrow> int \<Rightarrow> int \<Rightarrow> 'a list option" where
  "goSlice s lo hi =
     (if 0 \<le> lo \<and> lo \<le> hi \<and> hi \<le> int (length s)
      then Some (take (nat (hi - lo)) (drop (nat lo) s)) else None)"

text \<open>\<^verbatim>\<open>xs[i]\<close>: panics unless \<open>0 \<le> i < len(xs)\<close>.\<close>

definition goIndex :: "'a list \<Rightarrow> int \<Rightarrow> 'a option" where
  "goIndex xs i = (if 0 \<le> i \<and> i < int (length xs) then Some (xs ! nat i) else None)"

text \<open>\<^verbatim>\<open>strings.Split(s, "\n")\<close>: the empty string splits into one empty line.\<close>

fun Split :: "string \<Rightarrow> string list" where
  "Split [] = [[]]"
| "Split (c # cs) =
     (if c = NL then [] # Split cs
      else (case Split cs of [] \<Rightarrow> [[c]] | l # ls \<Rightarrow> (c # l) # ls))"

text \<open>\<^verbatim>\<open>strings.SplitAfter(s, "\n")\<close>: like \<open>Split\<close>, each piece keeps its line break.\<close>

fun SplitAfter :: "string \<Rightarrow> string list" where
  "SplitAfter [] = [[]]"
| "SplitAfter (c # cs) =
     (if c = NL then [c] # SplitAfter cs
      else (case SplitAfter cs of [] \<Rightarrow> [[c]] | l # ls \<Rightarrow> (c # l) # ls))"

text \<open>\<^verbatim>\<open>strings.TrimRight\<close>, \<^verbatim>\<open>strings.TrimLeft\<close>, \<^verbatim>\<open>strings.Trim\<close> with a cutset.\<close>

definition TrimLeft :: "string \<Rightarrow> string \<Rightarrow> string" where
  "TrimLeft s cutset = dropWhile (\<lambda>c. c \<in> set cutset) s"

definition TrimRight :: "string \<Rightarrow> string \<Rightarrow> string" where
  "TrimRight s cutset = rev (dropWhile (\<lambda>c. c \<in> set cutset) (rev s))"

definition Trim :: "string \<Rightarrow> string \<Rightarrow> string" where
  "Trim s cutset = TrimLeft (TrimRight s cutset) cutset"

definition HasPrefix :: "string \<Rightarrow> string \<Rightarrow> bool" where
  "HasPrefix s p = prefix p s"

definition HasSuffix :: "string \<Rightarrow> string \<Rightarrow> bool" where
  "HasSuffix s p = suffix p s"

text \<open>\<^verbatim>\<open>strings.Replace(s, old, new, -1)\<close> for a one-character \<open>old\<close>.\<close>

definition Replace :: "string \<Rightarrow> char \<Rightarrow> string \<Rightarrow> string" where
  "Replace s old new = concat (map (\<lambda>c. if c = old then new else [c]) s)"

text \<open>\<^verbatim>\<open>strings.LastIndex(s, c)\<close> for a one-character needle: \<open>-1\<close> when absent.\<close>

definition LastIndex :: "string \<Rightarrow> char \<Rightarrow> int" where
  "LastIndex s c =
     (if c \<in> set s then int (length s) - 1 - int (length (takeWhile (\<lambda>x. x \<noteq> c) (rev s)))
      else - 1)"

text \<open>\<^verbatim>\<open>strings.Repeat(s, count)\<close>: panics on a negative count.\<close>

definition Repeat :: "string \<Rightarrow> int \<Rightarrow> string option" where
  "Repeat s n = (if n < 0 then None else Some (concat (replicate (nat n) s)))"

text \<open>
  Modelled from the spec: \<^verbatim>\<open>indent.String(indent, s)\<close> belongs to the imported package
  \<^verbatim>\<open>goyang/pkg/indent\<close>, which is not among the repository's files.  It re-indents every
  line of \<open>s\<close>: each line is prefixed by \<open>indent\<close>; the empty piece after a final line break
  is not a line, and an empty \<open>indent\<close> or \<open>s\<close> gives \<open>s\<close> back.
\<close>

definition indentString :: "string \<Rightarrow> string \<Rightarrow> string" where
  "indentString ind s =
     (if ind = [] \<or> s = [] then s
      else let lines = SplitAfter s;
               lines' = (if last lines = [] then butlast lines else lines)
           in concat (map (\<lambda>l. ind @ l) lines'))"

section \<open>Tokens and token streams\<close>

text \<open>
  Modelled from the spec: the lexer is an imported package, not among the repository's
  files.  A token has a kind and a span (start and end, each with byte offset, line and
  column).  Only the identity of a kind matters to the formatter; the kinds it names and
  the kinds of the example programs are listed, \<open>TokenOther\<close> stands for every other kind
  of the lexer's enumeration.
\<close>

datatype TokenType =
    TokenError
  | TokenEOF
  | TokenSpace
  | TokenIdentifier
  | TokenDecimalIntegerLiteral
  | TokenEqual
  | TokenColon
  | TokenParenOpen
  | TokenParenClose
  | TokenBracketOpen
  | TokenBracketClose
  | TokenBraceOpen
  | TokenBraceClose
  | TokenBlockCommentStart
  | TokenBlockCommentContent
  | TokenBlockCommentEnd
  | TokenLineComment
  | TokenOther nat

record Position =
  Offset :: int
  Line :: int
  Column :: int

record Token =
  Type :: TokenType
  StartPos :: Position
  EndPos :: Position

definition zeroPosition :: Position where
  "zeroPosition = \<lparr>Offset = 0, Line = 0, Column = 0\<rparr>"

text \<open>\<^verbatim>\<open>lexer.Token{Type: lexer.TokenSpace}\<close>: the initial value of both token variables.\<close>

definition initialToken :: Token where
  "initialToken = \<lparr>Type = TokenSpace, StartPos = zeroPosition, EndPos = zeroPosition\<rparr>"

text \<open>
  Modelled from the spec: a token stream supports sequential consumption and a
  save/restore cursor, and ends at an end-of-input token.  Here it is the list of tokens
  not yet consumed.  \<open>Next\<close> returns the next token and the rest; an exhausted stream keeps
  returning an end-of-input token (whose position the formatter never reads).
  \<^verbatim>\<open>Cursor()\<close> is the stream itself and \<^verbatim>\<open>Revert(cursor)\<close> puts the saved stream back.
\<close>

definition eofToken :: Token where
  "eofToken = \<lparr>Type = TokenEOF, StartPos = zeroPosition, EndPos = zeroPosition\<rparr>"

fun Next :: "Token list \<Rightarrow> Token \<times> Token list" where
  "Next [] = (eofToken, [])"
| "Next (t # ts) = (t, ts)"

text \<open>\<^verbatim>\<open>extractTokenText\<close>: \<^verbatim>\<open>text[token.StartPos.Offset : token.EndPos.Offset+1]\<close>.\<close>

definition extractTokenText :: "string \<Rightarrow> Token \<Rightarrow> string option" where
  "extractTokenText text token =
     goSlice text (Offset (StartPos token)) (Offset (EndPos token) + 1)"

definition ignoredTokenTypes :: "TokenType list" where
  "ignoredTokenTypes =
     [TokenParenClose, TokenParenOpen, TokenBracketOpen, TokenBracketClose]"

section \<open>The merge loop of \<^verbatim>\<open>prettyCode\<close>\<close>

text \<open>The variables of \<^verbatim>\<open>prettyCode\<close> that change from one iteration to the next.\<close>

record state =
  newToken :: Token
  oldToken :: Token
  newTokens :: "Token list"
  oldTokens :: "Token list"
  result :: string
  spaces :: string
  comment :: string

datatype outcome = Continue state | Finished string

definition cutset :: string where
  "cutset = [SP, TAB]"

text \<open>
  \<^verbatim>\<open>case lexer.TokenLineComment\<close> (lines 238 to 279): the pair is the \<open>result\<close> and the
  \<open>comment\<close> builder, before and after.
\<close>

definition lineCommentCase ::
  "string list \<Rightarrow> string \<Rightarrow> string \<Rightarrow> Token \<Rightarrow> string \<times> string \<Rightarrow> (string \<times> string) option" where
  "lineCommentCase existingCodeLines existingCode spacesString tok rc =
     (case rc of (res, com) \<Rightarrow> do {
        ln \<leftarrow> goIndex existingCodeLines (Line (StartPos tok) - 1);
        untrimmed \<leftarrow> goSlice ln 0 (Column (StartPos tok));
        let oldLine = Trim untrimmed cutset;
        let isTrailing = (length oldLine > 0);
        com1 \<leftarrow>
          (if \<not> isTrailing \<and> Line (StartPos tok) > 1 then do {
             prev \<leftarrow> goIndex existingCodeLines (Line (StartPos tok) - 2);
             Some (if length (Trim prev cutset) = 0 \<and> length oldLine = 0
                      \<and> \<not> HasSuffix (Replace spacesString SP []) [NL, NL]
                   then com @ [NL] else com)
           } else Some com);
        txt \<leftarrow> extractTokenText existingCode tok;
        let com2 = com1 @ txt;
        com3 \<leftarrow>
          (if \<not> isTrailing \<and> Line (StartPos tok) < int (length existingCodeLines) then do {
             nxt \<leftarrow> goIndex existingCodeLines (Line (StartPos tok));
             Some (if length (Trim nxt cutset) = 0 \<and> length oldLine = 0
                   then com2 @ [NL] else com2)
           } else Some com2);
        Some (if isTrailing then (res @ [SP] @ com3, []) else (res, com3 @ [NL]))
      })"

text \<open>\<^verbatim>\<open>case lexer.TokenBlockCommentContent\<close> (lines 281 to 290).\<close>

definition blockCommentCase :: "string \<Rightarrow> Token \<Rightarrow> string \<times> string \<Rightarrow> (string \<times> string) option" where
  "blockCommentCase existingCode tok rc =
     (case rc of (res, com) \<Rightarrow> do {
        commentString \<leftarrow> extractTokenText existingCode tok;
        let com1 = com @ ''/*'' @ commentString @ ''*/'';
        Some (res, if Line (StartPos tok) < Line (EndPos tok) then com1 @ [NL, NL] else com1)
      })"

text \<open>The \<^verbatim>\<open>check only comments\<close> block applied to one old token (lines 235 to 293).\<close>

definition commentCase ::
  "string list \<Rightarrow> string \<Rightarrow> string \<Rightarrow> Token \<Rightarrow> string \<times> string \<Rightarrow> (string \<times> string) option" where
  "commentCase existingCodeLines existingCode spacesString tok rc =
     (if Type tok = TokenLineComment
      then lineCommentCase existingCodeLines existingCode spacesString tok rc
      else if Type tok = TokenBlockCommentContent
      then blockCommentCase existingCode tok rc
      else Some rc)"

text \<open>
  The inner \<^verbatim>\<open>for\<close> loop (lines 231 to 298): pull old tokens, handing comments to
  \<open>commentCase\<close>, until one has the kind of the new token or is the end of input.
  It returns the last old token pulled, the old stream after it, \<open>result\<close> and \<open>comment\<close>.
\<close>

fun resyncOld ::
  "string list \<Rightarrow> string \<Rightarrow> string \<Rightarrow> TokenType \<Rightarrow> Token list \<Rightarrow> string \<times> string
     \<Rightarrow> (Token \<times> Token list \<times> string \<times> string) option" where
  "resyncOld existingCodeLines existingCode spacesString newType [] rc =
     Some (eofToken, [], rc)"
| "resyncOld existingCodeLines existingCode spacesString newType (t # ts) rc =
     (case commentCase existingCodeLines existingCode spacesString t rc of
        None \<Rightarrow> None
      | Some rc' \<Rightarrow>
          if Type t = newType \<or> Type t = TokenEOF then Some (t, ts, rc')
          else resyncOld existingCodeLines existingCode spacesString newType ts rc')"

text \<open>
  Lines 307 to 324: flush the spacing buffer and the pending comment, then the new token.
\<close>

definition emitToken :: "string \<Rightarrow> Token \<Rightarrow> string \<Rightarrow> string \<Rightarrow> string \<Rightarrow> string option" where
  "emitToken prettyCode tok res spacesString com = do {
     let existingIndent = int (length spacesString) - (LastIndex spacesString NL + 1);
     let res1 = res @ TrimRight spacesString [SP];
     res2 \<leftarrow>
       (if length com > 0 then do {
          padding \<leftarrow> Repeat [SP] (Column (StartPos tok));
          Some (res1 @ indentString padding com @ padding)
        } else do {
          ind \<leftarrow> Repeat [SP] existingIndent;
          Some (res1 @ ind)
        });
     txt \<leftarrow> extractTokenText prettyCode tok;
     Some (res2 @ txt)
   }"

text \<open>One iteration of the outer \<^verbatim>\<open>for\<close> loop (lines 198 to 326).\<close>

definition step :: "string list \<Rightarrow> string \<Rightarrow> string \<Rightarrow> state \<Rightarrow> outcome option" where
  "step existingCodeLines existingCode prettyCode s =
     (case (if Type (newToken s) \<noteq> TokenEOF then Next (newTokens s)
            else (newToken s, newTokens s)) of
        (tok, toks) \<Rightarrow>
          if Type tok = TokenSpace then do {
            txt \<leftarrow> extractTokenText prettyCode tok;
            Some (Continue (s\<lparr>newToken := tok, newTokens := toks, spaces := spaces s @ txt\<rparr>))
          }
          else if Type tok = TokenBraceOpen then
            (case Next toks of
               (lookahead, toks') \<Rightarrow>
                 if Type lookahead = TokenBraceClose
                 then Some (Continue (s\<lparr>newToken := tok, newTokens := toks',
                                        result := result s @ ''{}''\<rparr>))
                 else Some (Continue (s\<lparr>newToken := tok, newTokens := toks,
                                        result := result s @ ''{''\<rparr>)))
          else if Type tok \<in> set ignoredTokenTypes then do {
            txt \<leftarrow> extractTokenText prettyCode tok;
            Some (Continue (s\<lparr>newToken := tok, newTokens := toks,
                             result := result s @ spaces s @ txt, spaces := []\<rparr>))
          }
          else do {
            (old, olds, res, com) \<leftarrow>
              (if Type (oldToken s) \<noteq> TokenEOF
               then resyncOld existingCodeLines existingCode (spaces s) (Type tok)
                      (oldTokens s) (result s, comment s)
               else Some (oldToken s, oldTokens s, result s, comment s));
            if Type old = TokenEOF \<and> Type tok = TokenEOF then Some (Finished (res @ com))
            else do {
              res' \<leftarrow> emitToken prettyCode tok res (spaces s) com;
              Some (Continue \<lparr>newToken = tok, oldToken = old, newTokens = toks,
                              oldTokens = olds, result = res', spaces = [], comment = []\<rparr>)
            }
          })"

text \<open>What is left of the new stream: the loop's variant.\<close>

definition remaining :: "state \<Rightarrow> nat" where
  "remaining s = length (newTokens s) + (if Type (newToken s) = TokenEOF then 0 else 1)"

lemma resyncOld_stops:
  "resyncOld L C sp ty old rc = Some (t, rest, rc') \<Longrightarrow> Type t = ty \<or> Type t = TokenEOF"
  by (induction old arbitrary: rc) (auto simp: eofToken_def split: option.splits if_splits)

lemma step_decreases:
  assumes "step L C P s = Some (Continue s')"
  shows "remaining s' < remaining s"
proof (cases "Type (newToken s) = TokenEOF")
  case True
  with assms show ?thesis
    by (auto simp: step_def ignoredTokenTypes_def split: if_splits prod.splits bind_splits
          dest: resyncOld_stops)
next
  case False
  show ?thesis
  proof (cases "newTokens s")
    case Nil
    with False assms show ?thesis
      by (auto simp: step_def ignoredTokenTypes_def eofToken_def
            split: if_splits prod.splits bind_splits dest: resyncOld_stops)
  next
    case (Cons t ts)
    with False assms show ?thesis
      by (cases ts)
         (auto simp: step_def remaining_def split: if_splits prod.splits bind_splits)
  qed
qed

text \<open>The outer loop: iterate \<open>step\<close> until it finishes or panics.\<close>

function mergeLoop :: "string list \<Rightarrow> string \<Rightarrow> string \<Rightarrow> state \<Rightarrow> string option" where
  "mergeLoop existingCodeLines existingCode prettyCode s =
     (case step existingCodeLines existingCode prettyCode s of
        None \<Rightarrow> None
      | Some (Finished out) \<Rightarrow> Some out
      | Some (Continue s') \<Rightarrow> mergeLoop existingCodeLines existingCode prettyCode s')"
  by pat_completeness auto
termination
  by (relation "measure (\<lambda>(L, C, P, s). remaining s)") (auto simp: step_decreases)

declare mergeLoop.simps [simp del]

text \<open>
  The same loop with an explicit bound on the number of iterations: \<open>None\<close> when the
  bound is used up before the loop has ended, otherwise what the loop returned
  (\<open>Some None\<close> for a panic).
\<close>

fun mergeLoopBounded ::
  "nat \<Rightarrow> string list \<Rightarrow> string \<Rightarrow> string \<Rightarrow> state \<Rightarrow> string option option" where
  "mergeLoopBounded 0 existingCodeLines existingCode prettyCode s = None"
| "mergeLoopBounded (Suc n) existingCodeLines existingCode prettyCode s =
     (case step existingCodeLines existingCode prettyCode s of
        None \<Rightarrow> Some None
      | Some (Finished out) \<Rightarrow> Some (Some out)
      | Some (Continue s') \<Rightarrow> mergeLoopBounded n existingCodeLines existingCode prettyCode s')"

section \<open>\<^verbatim>\<open>pretty\<close> and \<^verbatim>\<open>prettyCode\<close>\<close>

text \<open>
  The parser, the document renderer and the lexer are imported packages; they are
  parameters.  \<open>ParseProgram code\<close> is \<open>Inl\<close> of the text of the error (\<^verbatim>\<open>err.Error()\<close>) or
  \<open>Inr\<close> of the program; \<open>Prettier program maxLineWidth indent\<close> is the rendered text.
\<close>

definition pretty ::
  "(string \<Rightarrow> string + 'p) \<Rightarrow> ('p \<Rightarrow> int \<Rightarrow> string \<Rightarrow> string) \<Rightarrow> string \<Rightarrow> int \<Rightarrow> string" where
  "pretty ParseProgram Prettier code maxLineWidth =
     (case ParseProgram code of
        Inl err \<Rightarrow> err
      | Inr program \<Rightarrow> Prettier program maxLineWidth ''    '')"

definition initialState :: "Token list \<Rightarrow> Token list \<Rightarrow> state" where
  "initialState olds news =
     \<lparr>newToken = initialToken, oldToken = initialToken, newTokens = news, oldTokens = olds,
      result = [], spaces = [], comment = []\<rparr>"

definition prettyCode ::
  "(string \<Rightarrow> Token list) \<Rightarrow> (string \<Rightarrow> string + 'p) \<Rightarrow> ('p \<Rightarrow> int \<Rightarrow> string \<Rightarrow> string)
     \<Rightarrow> string \<Rightarrow> int \<Rightarrow> string option" where
  "prettyCode Lex ParseProgram Prettier existingCode maxLineLength =
     (let existingCodeLines = Split existingCode;
          oldTokens = Lex existingCode;
          prettyCode = pretty ParseProgram Prettier existingCode maxLineLength
      in if HasPrefix prettyCode ''Parsing failed '' then Some prettyCode
         else mergeLoop existingCodeLines existingCode prettyCode
                (initialState oldTokens (Lex prettyCode)))"

section \<open>Concrete token streams\<close>

text \<open>
  Modelled from the spec: the lexer (\<^verbatim>\<open>lexer.Lex\<close>) is an imported package, absent from the
  repository.  Its tokens carry byte offsets and line/column spans; \<open>EndPos\<close> is the
  position of a token's last byte (\<open>extractTokenText\<close> slices up to \<open>EndPos.Offset + 1\<close>),
  lines count from 1 (the formatter reads line \<open>Line - 1\<close> of the split text) and columns
  from 0 (it takes the first \<open>Column\<close> bytes of that line).  \<open>positioned\<close> lays the given
  kinds and texts out one after the other from a start position.
\<close>

fun advance :: "Position \<Rightarrow> string \<Rightarrow> Position" where
  "advance p [] = p"
| "advance p (c # cs) =
     advance (if c = NL then \<lparr>Offset = Offset p + 1, Line = Line p + 1, Column = 0\<rparr>
              else \<lparr>Offset = Offset p + 1, Line = Line p, Column = Column p + 1\<rparr>) cs"

definition lastPosition :: "Position \<Rightarrow> string \<Rightarrow> Position" where
  "lastPosition p txt = (if txt = [] then p\<lparr>Offset := Offset p - 1\<rparr> else advance p (butlast txt))"

fun positioned :: "Position \<Rightarrow> (TokenType \<times> string) list \<Rightarrow> Token list" where
  "positioned p [] = []"
| "positioned p ((ty, txt) # rest) =
     \<lparr>Type = ty, StartPos = p, EndPos = lastPosition p txt\<rparr> # positioned (advance p txt) rest"

definition startPosition :: Position where
  "startPosition = \<lparr>Offset = 0, Line = 1, Column = 0\<rparr>"

definition lexed :: "(TokenType \<times> string) list \<Rightarrow> Token list" where
  "lexed kts = positioned startPosition kts"

text \<open>
  A lexer that knows two texts: the original and its rendering.  Every other text has no
  tokens.
\<close>

definition lexerOf ::
  "(TokenType \<times> string) list \<Rightarrow> (TokenType \<times> string) list \<Rightarrow> string \<Rightarrow> Token list" where
  "lexerOf original rendered text =
     (if text = concat (map snd original) then lexed original
      else if text = concat (map snd rendered) then lexed rendered
      else [])"

section \<open>The precondition of the merge\<close>

text \<open>
  The spec's precondition on the two streams (section 4.3): the kinds of the new tokens,
  apart from whitespace, comments and the bypassed parentheses and brackets, form a
  subsequence of the kinds of the old tokens.
\<close>

definition significantKinds :: "Token list \<Rightarrow> TokenType list" where
  "significantKinds toks =
     map Type (filter (\<lambda>t. Type t \<notin> {TokenSpace, TokenLineComment, TokenBlockCommentStart,
                                       TokenBlockCommentContent, TokenBlockCommentEnd}
                               \<union> set ignoredTokenTypes) toks)"

definition kindCompatible :: "Token list \<Rightarrow> Token list \<Rightarrow> bool" where
  "kindCompatible olds news = subseq (significantKinds news) (map Type olds)"

section \<open>Conservation of comments: the invariant\<close>

text \<open>
  What the loop writes for a comment token of the original text \<open>C\<close>: a line comment's
  text, a block comment's content between its delimiters.
\<close>

definition writtenAs :: "string \<Rightarrow> Token \<Rightarrow> string \<Rightarrow> bool" where
  "writtenAs C u T \<longleftrightarrow>
     (Type u = TokenLineComment \<and> extractTokenText C u = Some T)
     \<or> (Type u = TokenBlockCommentContent
         \<and> (\<exists>tx. extractTokenText C u = Some tx \<and> T = ''/*'' @ tx @ ''*/''))"

text \<open>A token is ahead in the old stream: it comes before the first end-of-input token.\<close>

definition ahead :: "Token \<Rightarrow> Token list \<Rightarrow> bool" where
  "ahead u olds \<longleftrightarrow> u \<in> set (takeWhile (\<lambda>t. Type t \<noteq> TokenEOF) olds)"

text \<open>
  The text \<open>T\<close> of the comment token \<open>u\<close> is in the result, or pending in the comment
  buffer, or the token is still ahead in the old stream.
\<close>

definition conserved :: "Token \<Rightarrow> string \<Rightarrow> state \<Rightarrow> bool" where
  "conserved u T s \<longleftrightarrow>
     sublist T (result s) \<or> sublist T (comment s)
     \<or> (Type (oldToken s) \<noteq> TokenEOF \<and> ahead u (oldTokens s))"

section \<open>Passing a comment-free rendering through: the conditions\<close>

text \<open>The tokens up to the last one that is not whitespace.\<close>

definition stripTrailingSpace :: "Token list \<Rightarrow> Token list" where
  "stripTrailingSpace toks = rev (dropWhile (\<lambda>t. Type t = TokenSpace) (rev toks))"





section \<open>Token spans that lie within their texts\<close>

text \<open>The span of a token can be sliced out of the text.\<close>

definition inText :: "string \<Rightarrow> Token \<Rightarrow> bool" where
  "inText text t \<longleftrightarrow>
     0 \<le> Offset (StartPos t) \<and> Offset (StartPos t) \<le> Offset (EndPos t) + 1
     \<and> Offset (EndPos t) + 1 \<le> int (length text)"

text \<open>
  A new token other than the end of input lies within the rendered text and has a
  column that can be used as a repeat count.
\<close>

definition wellPlacedNew :: "string \<Rightarrow> Token \<Rightarrow> bool" where
  "wellPlacedNew P t \<longleftrightarrow> (Type t \<noteq> TokenEOF \<longrightarrow> inText P t \<and> 0 \<le> Column (StartPos t))"

text \<open>
  An old comment token lies within the original text; a line comment also names a line
  of the split text and a column within that line.
\<close>

definition wellPlacedOld :: "string list \<Rightarrow> string \<Rightarrow> Token \<Rightarrow> bool" where
  "wellPlacedOld L C t \<longleftrightarrow>
     (Type t = TokenLineComment \<longrightarrow>
        inText C t \<and> 1 \<le> Line (StartPos t) \<and> Line (StartPos t) \<le> int (length L)
        \<and> 0 \<le> Column (StartPos t)
        \<and> Column (StartPos t) \<le> int (length (L ! nat (Line (StartPos t) - 1))))
     \<and> (Type t = TokenBlockCommentContent \<longrightarrow> inText C t)"

text \<open>The tokens left in both streams of a loop state are well placed.\<close>

definition wellPlaced :: "string list \<Rightarrow> string \<Rightarrow> string \<Rightarrow> state \<Rightarrow> bool" where
  "wellPlaced L C P s \<longleftrightarrow>
     (\<forall>t \<in> set (newTokens s). wellPlacedNew P t) \<and> (\<forall>t \<in> set (oldTokens s). wellPlacedOld L C t)"

section \<open>Example programs\<close>

text \<open>The line \<^verbatim>\<open>x = 1 // note\<close> and its rendering \<^verbatim>\<open>x = 1\<close>.\<close>

definition noteOriginal :: "(TokenType \<times> string) list" where
  "noteOriginal =
     [(TokenIdentifier, ''x''), (TokenSpace, '' ''), (TokenEqual, ''=''), (TokenSpace, '' ''),
      (TokenDecimalIntegerLiteral, ''1''), (TokenSpace, '' ''), (TokenLineComment, ''// note''),
      (TokenEOF, [])]"

definition noteRendered :: "(TokenType \<times> string) list" where
  "noteRendered =
     [(TokenIdentifier, ''x''), (TokenSpace, '' ''), (TokenEqual, ''=''), (TokenSpace, '' ''),
      (TokenDecimalIntegerLiteral, ''1''), (TokenEOF, [])]"

text \<open>The rendering \<^verbatim>\<open>f()\<close>.\<close>

definition callRendered :: "(TokenType \<times> string) list" where
  "callRendered =
     [(TokenIdentifier, ''f''), (TokenParenOpen, ''(''), (TokenParenClose, '')''), (TokenEOF, [])]"

text \<open>
  The comment \<^verbatim>\<open>// header\<close>, a blank line and \<^verbatim>\<open>a = 1\<close>; its rendering \<^verbatim>\<open>a = 1\<close>.
\<close>

definition headerOriginal :: "(TokenType \<times> string) list" where
  "headerOriginal =
     [(TokenLineComment, ''// header''), (TokenSpace, [NL, NL]), (TokenIdentifier, ''a''),
      (TokenSpace, '' ''), (TokenEqual, ''=''), (TokenSpace, '' ''),
      (TokenDecimalIntegerLiteral, ''1''), (TokenEOF, [])]"

definition headerRendered :: "(TokenType \<times> string) list" where
  "headerRendered =
     [(TokenIdentifier, ''a''), (TokenSpace, '' ''), (TokenEqual, ''=''), (TokenSpace, '' ''),
      (TokenDecimalIntegerLiteral, ''1''), (TokenEOF, [])]"

text \<open>
  The declaration \<^verbatim>\<open>let x = 1\<close>, alone and followed on its line by a block comment and a
  line comment.
\<close>

definition letRendered :: "(TokenType \<times> string) list" where
  "letRendered =
     [(TokenIdentifier, ''let''), (TokenSpace, '' ''), (TokenIdentifier, ''x''),
      (TokenSpace, '' ''), (TokenEqual, ''=''), (TokenSpace, '' ''),
      (TokenDecimalIntegerLiteral, ''1''), (TokenEOF, [])]"

definition blockNoteOriginal :: "(TokenType \<times> string) list" where
  "blockNoteOriginal =
     [(TokenIdentifier, ''let''), (TokenSpace, '' ''), (TokenIdentifier, ''x''),
      (TokenSpace, '' ''), (TokenEqual, ''=''), (TokenSpace, '' ''),
      (TokenDecimalIntegerLiteral, ''1''), (TokenSpace, '' ''),
      (TokenBlockCommentStart, ''/*''), (TokenBlockCommentContent, '' c ''),
      (TokenBlockCommentEnd, ''*/''), (TokenSpace, '' ''), (TokenLineComment, ''// note''),
      (TokenEOF, [])]"

text \<open>
  The function \<^verbatim>\<open>pub fun main() {}\<close>, which is its own rendering.
\<close>

definition mainCanonical :: "(TokenType \<times> string) list" where
  "mainCanonical =
     [(TokenIdentifier, ''pub''), (TokenSpace, '' ''), (TokenIdentifier, ''fun''),
      (TokenSpace, '' ''), (TokenIdentifier, ''main''), (TokenParenOpen, ''(''),
      (TokenParenClose, '')''), (TokenSpace, '' ''), (TokenBraceOpen, ''{''),
      (TokenBraceClose, ''}''), (TokenEOF, [])]"

text \<open>
  The declaration \<^verbatim>\<open>struct S {}\<close>, and a rendering of it that puts the closing brace on
  an indented line of its own.
\<close>

definition structOriginal :: "(TokenType \<times> string) list" where
  "structOriginal =
     [(TokenIdentifier, ''struct''), (TokenSpace, '' ''), (TokenIdentifier, ''S''),
      (TokenSpace, '' ''), (TokenBraceOpen, ''{''), (TokenBraceClose, ''}''), (TokenEOF, [])]"

definition structSpread :: "(TokenType \<times> string) list" where
  "structSpread =
     [(TokenIdentifier, ''struct''), (TokenSpace, '' ''), (TokenIdentifier, ''S''),
      (TokenSpace, '' ''), (TokenBraceOpen, ''{''), (TokenSpace, NL # ''    ''),
      (TokenBraceClose, ''}''), (TokenEOF, [])]"

text \<open>The rendering \<^verbatim>\<open>let x = 1\<close> followed by a line break.\<close>

definition letNewlineRendered :: "(TokenType \<times> string) list" where
  "letNewlineRendered =
     [(TokenIdentifier, ''let''), (TokenSpace, '' ''), (TokenIdentifier, ''x''),
      (TokenSpace, '' ''), (TokenEqual, ''=''), (TokenSpace, '' ''),
      (TokenDecimalIntegerLiteral, ''1''), (TokenSpace, [NL]), (TokenEOF, [])]"




text \<open>
  The declaration \<^verbatim>\<open>let x = 1\<close> with a block comment of two lines before the \<^verbatim>\<open>1\<close>: the
  comment's content is \<^verbatim>\<open> a\<close>, a line break and \<^verbatim>\<open>b \<close>.
\<close>

definition multilineOriginal :: "(TokenType \<times> string) list" where
  "multilineOriginal =
     [(TokenIdentifier, ''let''), (TokenSpace, '' ''), (TokenIdentifier, ''x''),
      (TokenSpace, '' ''), (TokenEqual, ''=''), (TokenSpace, '' ''),
      (TokenBlockCommentStart, ''/*''), (TokenBlockCommentContent, '' a'' @ [NL] @ ''b ''),
      (TokenBlockCommentEnd, ''*/''), (TokenSpace, '' ''),
      (TokenDecimalIntegerLiteral, ''1''), (TokenEOF, [])]"


text \<open>
  \<open>prettyCode\<close> on an example: the lexer knows the two token lists, parsing succeeds
  (the program is the text itself) and the renderer returns the text of \<open>rendered\<close>.
\<close>

definition rendersTo :: "string \<Rightarrow> string \<Rightarrow> int \<Rightarrow> string \<Rightarrow> string" where
  "rendersTo text program maxLineWidth indent = text"


definition prettyCodeOn ::
  "(TokenType \<times> string) list \<Rightarrow> (TokenType \<times> string) list \<Rightarrow> string option" where
  "prettyCodeOn original rendered =
     prettyCode (lexerOf original rendered) Inr (rendersTo (concat (map snd rendered)))
       (concat (map snd original)) 80"

section \<open>Structural bypass\<close>

text \<open>
  Claim C7.  On a parenthesis or bracket of the rendered stream an iteration appends the
  spacing buffer and then the token's text to the result, empties the spacing buffer and
  consumes that token; the old token, the old stream and the comment buffer stay as they
  were, whatever the original's lines and text are.
\<close>

theorem structural_bypass:
  assumes "Type (newToken s) \<noteq> TokenEOF"
      and "newTokens s = t # rest"
      and "Type t \<in> {TokenParenOpen, TokenParenClose, TokenBracketOpen, TokenBracketClose}"
      and "extractTokenText P t = Some txt"
  shows "step L C P s =
           Some (Continue (s\<lparr>newToken := t, newTokens := rest,
                             result := result s @ spaces s @ txt, spaces := []\<rparr>))"
  using assms by (auto simp: step_def ignoredTokenTypes_def)

theorem structural_bypass_witness:
  "step [] [] ''f()''
     \<lparr>newToken = hd (lexed callRendered), oldToken = initialToken,
      newTokens = tl (lexed callRendered),
      oldTokens = [], result = ''f'', spaces = '' '', comment = ''// c''\<rparr>
   = Some (Continue
     \<lparr>newToken = lexed callRendered ! 1, oldToken = initialToken,
      newTokens = drop 2 (lexed callRendered),
      oldTokens = [], result = ''f ('', spaces = [], comment = ''// c''\<rparr>)"
proof -
  let ?s = "\<lparr>newToken = hd (lexed callRendered), oldToken = initialToken,
             newTokens = tl (lexed callRendered),
             oldTokens = [], result = ''f'', spaces = '' '', comment = ''// c''\<rparr>"
  have h1: "Type (newToken ?s) \<noteq> TokenEOF" by code_simp
  have h2: "newTokens ?s = lexed callRendered ! 1 # drop 2 (lexed callRendered)" by code_simp
  have h3: "Type (lexed callRendered ! 1)
              \<in> {TokenParenOpen, TokenParenClose, TokenBracketOpen, TokenBracketClose}"
    by code_simp
  have h4: "extractTokenText ''f()'' (lexed callRendered ! 1) = Some ''(''" by code_simp
  from structural_bypass [OF h1 h2 h3 h4, of "[]" "[]"] show ?thesis by simp
qed

section \<open>Classifying line comments\<close>

lemma dropWhile_all_iff: "(\<forall>x \<in> set (dropWhile Q ys). Q x) \<longleftrightarrow> (\<forall>x \<in> set ys. Q x)"
proof
  assume a: "\<forall>x \<in> set (dropWhile Q ys). Q x"
  have "dropWhile Q ys = []"
  proof (rule ccontr)
    assume n: "dropWhile Q ys \<noteq> []"
    then have "\<not> Q (hd (dropWhile Q ys))" by (rule hd_dropWhile)
    moreover from n have "hd (dropWhile Q ys) \<in> set (dropWhile Q ys)" by simp
    ultimately show False using a by blast
  qed
  then show "\<forall>x \<in> set ys. Q x" by (simp add: dropWhile_eq_Nil_conv)
next
  assume "\<forall>x \<in> set ys. Q x"
  then show "\<forall>x \<in> set (dropWhile Q ys). Q x" by (auto dest: set_dropWhileD)
qed

lemma Trim_Nil_iff: "Trim s cs = [] \<longleftrightarrow> set s \<subseteq> set cs"
proof -
  have "Trim s cs = [] \<longleftrightarrow> (\<forall>x \<in> set (dropWhile (\<lambda>c. c \<in> set cs) (rev s)). x \<in> set cs)"
    by (simp add: Trim_def TrimLeft_def TrimRight_def dropWhile_eq_Nil_conv)
  also have "\<dots> \<longleftrightarrow> (\<forall>x \<in> set (rev s). x \<in> set cs)"
    by (rule dropWhile_all_iff)
  finally show ?thesis by auto
qed

lemma blank_iff: "Trim s cutset = [] \<longleftrightarrow> set s \<subseteq> {SP, TAB}"
  by (simp add: Trim_Nil_iff cutset_def)

lemma goIndex_Some: "goIndex xs i = Some x \<longleftrightarrow> 0 \<le> i \<and> i < int (length xs) \<and> x = xs ! nat i"
  by (auto simp: goIndex_def)

lemma lineCommentCase_trailing:
  assumes "goIndex L (Line (StartPos tok) - 1) = Some ln"
      and "goSlice ln 0 (Column (StartPos tok)) = Some before"
      and "extractTokenText C tok = Some txt"
      and "\<not> set before \<subseteq> {SP, TAB}"
  shows "lineCommentCase L C sp tok (res, com) = Some (res @ [SP] @ com @ txt, [])"
  using assms by (simp add: lineCommentCase_def blank_iff Let_def)

lemma lineCommentCase_leading:
  assumes "goIndex L (Line (StartPos tok) - 1) = Some ln"
      and "goSlice ln 0 (Column (StartPos tok)) = Some before"
      and "extractTokenText C tok = Some txt"
      and "set before \<subseteq> {SP, TAB}"
  shows "lineCommentCase L C sp tok (res, com) =
           Some (res,
             com @ (if 1 < Line (StartPos tok) \<and> set (L ! nat (Line (StartPos tok) - 2)) \<subseteq> {SP, TAB}
                       \<and> \<not> HasSuffix (Replace sp SP []) [NL, NL] then [NL] else [])
                 @ txt
                 @ (if Line (StartPos tok) < int (length L)
                       \<and> set (L ! nat (Line (StartPos tok))) \<subseteq> {SP, TAB} then [NL] else [])
                 @ [NL])"
proof -
  from assms(1) have r: "0 \<le> Line (StartPos tok) - 1" "Line (StartPos tok) - 1 < int (length L)"
    by (simp_all add: goIndex_Some)
  have prev: "1 < Line (StartPos tok) \<Longrightarrow>
      goIndex L (Line (StartPos tok) - 2) = Some (L ! nat (Line (StartPos tok) - 2))"
    using r by (simp add: goIndex_def)
  have nxt: "Line (StartPos tok) < int (length L) \<Longrightarrow>
      goIndex L (Line (StartPos tok)) = Some (L ! nat (Line (StartPos tok)))"
    using r by (simp add: goIndex_def)
  show ?thesis
    using assms prev nxt by (simp add: lineCommentCase_def blank_iff Let_def)
qed

text \<open>
  Claim C4, as amended.  A line comment gets the trailing treatment exactly when a
  character other than a space or a tab stands before it on its source line: a single
  space, the comment text still pending in the comment buffer and the comment's own text
  are appended to the result, and the buffer is emptied.  With nothing pending the comment
  follows the space directly: for the original \<^verbatim>\<open>x = 1 // note\<close> rendered as \<^verbatim>\<open>x = 1\<close>
  the output is \<^verbatim>\<open>x = 1 // note\<close>.
\<close>

theorem trailing_comment_placement:
  assumes "Type tok = TokenLineComment"
      and "goIndex L (Line (StartPos tok) - 1) = Some ln"
      and "goSlice ln 0 (Column (StartPos tok)) = Some before"
      and "extractTokenText C tok = Some txt"
  shows "((commentCase L C sp tok (res, com) = Some (res @ [SP] @ com @ txt, []))
            = (\<exists>c \<in> set before. c \<noteq> SP \<and> c \<noteq> TAB))
         \<and> prettyCodeOn noteOriginal noteRendered = Some ''x = 1 // note''"
proof (intro conjI)
  show "(commentCase L C sp tok (res, com) = Some (res @ [SP] @ com @ txt, []))
          = (\<exists>c \<in> set before. c \<noteq> SP \<and> c \<noteq> TAB)"
  proof (cases "set before \<subseteq> {SP, TAB}")
    case True
    from lineCommentCase_leading [OF assms(2,3,4) True, of sp res com]
    have "commentCase L C sp tok (res, com) \<noteq> Some (res @ [SP] @ com @ txt, [])"
      using assms(1) by (simp add: commentCase_def)
    with True show ?thesis by auto
  next
    case False
    from lineCommentCase_trailing [OF assms(2,3,4) False, of sp res com]
    have "commentCase L C sp tok (res, com) = Some (res @ [SP] @ com @ txt, [])"
      using assms(1) by (simp add: commentCase_def)
    with False show ?thesis by auto
  qed
next
  show "prettyCodeOn noteOriginal noteRendered = Some ''x = 1 // note''"
    by code_simp
qed

theorem trailing_comment_placement_witness:
  "commentCase [''x = 1 // note''] ''x = 1 // note'' [] (lexed noteOriginal ! 6) (''x = 1'', [])
     = Some (''x = 1 // note'', [])"
proof -
  let ?tok = "lexed noteOriginal ! 6"
  have h1: "Type ?tok = TokenLineComment" by code_simp
  have h2: "goIndex [''x = 1 // note''] (Line (StartPos ?tok) - 1) = Some ''x = 1 // note''"
    by code_simp
  have h3: "goSlice ''x = 1 // note'' 0 (Column (StartPos ?tok)) = Some ''x = 1 ''"
    by code_simp
  have h4: "extractTokenText ''x = 1 // note'' ?tok = Some ''// note''" by code_simp
  have h5: "\<exists>c \<in> set ''x = 1 ''. c \<noteq> SP \<and> c \<noteq> TAB" by simp
  from trailing_comment_placement [OF h1 h2 h3 h4, of "[]" "''x = 1''" "[]"] h5
  show ?thesis by simp
qed

text \<open>
  The claim as stated puts exactly one space before every trailing comment.  After a
  block comment on the same line the space goes before the pending block comment, and the
  line comment follows it with no space: \<^verbatim>\<open>let x = 1 /* c */ // note\<close> comes out as
  \<^verbatim>\<open>let x = 1 /* c */// note\<close>.
\<close>

theorem trailing_comment_after_block_comment:
  "commentCase [''let x = 1 /* c */ // note''] ''let x = 1 /* c */ // note'' []
       (lexed blockNoteOriginal ! 12) (''let x = 1'', ''/* c */'')
     = Some (''let x = 1 /* c */// note'', [])
   \<and> prettyCodeOn blockNoteOriginal letRendered = Some ''let x = 1 /* c */// note''"
  by code_simp

text \<open>
  Claim C5.  For a leading line comment (only spaces and tabs before it on its line)
  nothing is written to the result and the comment buffer receives: a line break if the
  line before exists and is blank and the spacing buffer, spaces removed, does not end in
  two line breaks; the comment's text; a line break if the line after exists and is blank;
  and the line break that ends the comment.  For \<^verbatim>\<open>// header\<close>, a blank line and \<^verbatim>\<open>a = 1\<close>,
  rendered as \<^verbatim>\<open>a = 1\<close>, the output keeps the blank line between comment and code.
\<close>

theorem leading_comment_blank_lines:
  assumes "Type tok = TokenLineComment"
      and "goIndex L (Line (StartPos tok) - 1) = Some ln"
      and "goSlice ln 0 (Column (StartPos tok)) = Some before"
      and "set before \<subseteq> {SP, TAB}"
      and "extractTokenText C tok = Some txt"
  shows "commentCase L C sp tok (res, com) =
           Some (res,
             com @ (if 1 < Line (StartPos tok) \<and> set (L ! nat (Line (StartPos tok) - 2)) \<subseteq> {SP, TAB}
                       \<and> \<not> HasSuffix (Replace sp SP []) [NL, NL] then [NL] else [])
                 @ txt
                 @ (if Line (StartPos tok) < int (length L)
                       \<and> set (L ! nat (Line (StartPos tok))) \<subseteq> {SP, TAB} then [NL] else [])
                 @ [NL])
         \<and> prettyCodeOn headerOriginal headerRendered = Some (''// header'' @ [NL, NL] @ ''a = 1'')"
proof (intro conjI)
  show "commentCase L C sp tok (res, com) =
           Some (res,
             com @ (if 1 < Line (StartPos tok) \<and> set (L ! nat (Line (StartPos tok) - 2)) \<subseteq> {SP, TAB}
                       \<and> \<not> HasSuffix (Replace sp SP []) [NL, NL] then [NL] else [])
                 @ txt
                 @ (if Line (StartPos tok) < int (length L)
                       \<and> set (L ! nat (Line (StartPos tok))) \<subseteq> {SP, TAB} then [NL] else [])
                 @ [NL])"
    using lineCommentCase_leading [OF assms(2,3,5,4), of sp res com] assms(1)
    by (simp add: commentCase_def)
next
  show "prettyCodeOn headerOriginal headerRendered = Some (''// header'' @ [NL, NL] @ ''a = 1'')"
    by code_simp
qed

theorem leading_comment_blank_lines_witness:
  "commentCase [''// header'', [], ''a = 1''] (''// header'' @ [NL, NL] @ ''a = 1'') []
       (lexed headerOriginal ! 0) ([], [])
     = Some ([], ''// header'' @ [NL, NL])"
proof -
  let ?tok = "lexed headerOriginal ! 0"
  let ?L = "[''// header'', [], ''a = 1'']"
  have h1: "Type ?tok = TokenLineComment" by code_simp
  have h2: "goIndex ?L (Line (StartPos ?tok) - 1) = Some ''// header''" by code_simp
  have h3: "goSlice ''// header'' 0 (Column (StartPos ?tok)) = Some []" by code_simp
  have h4: "set [] \<subseteq> {SP, TAB}" by simp
  have h5: "extractTokenText (''// header'' @ [NL, NL] @ ''a = 1'') ?tok = Some ''// header''"
    by code_simp
  have h6: "Line (StartPos ?tok) = 1" by code_simp
  from leading_comment_blank_lines [OF h1 h2 h3 h4 h5, of "[]" "[]" "[]"] h6
  show ?thesis by simp
qed

section \<open>Braces\<close>

text \<open>
  Claim C6, as amended.  On an open brace of the rendered stream an iteration looks at
  the token that follows it in the stream.  If that token is a close brace, both are
  consumed and the result is extended by text that ends with the two characters \<^verbatim>\<open>{}\<close>;
  otherwise only the open brace is consumed, the result is extended by text that ends
  with \<^verbatim>\<open>{\<close>, and the next iteration reads the token that was looked at.  In both
  cases the old token, the old stream and the comment buffer stay as they were.  The
  token looked at is the very next one, whitespace included.
\<close>

theorem empty_block_collapse:
  assumes "Type (newToken s) \<noteq> TokenEOF"
      and "newTokens s = t # rest"
      and "Type t = TokenBraceOpen"
  shows "\<exists>s' pending. step L C P s = Some (Continue s')
           \<and> newToken s' = t \<and> oldToken s' = oldToken s \<and> oldTokens s' = oldTokens s
           \<and> comment s' = comment s
           \<and> (if rest \<noteq> [] \<and> Type (hd rest) = TokenBraceClose
               then newTokens s' = tl rest \<and> result s' = result s @ pending @ ''{}''
               else newTokens s' = rest \<and> result s' = result s @ pending @ ''{'')"
proof (cases rest)
  case Nil
  let ?s' = "s\<lparr>newToken := t, newTokens := rest, result := result s @ ''{''\<rparr>"
  from assms Nil have "step L C P s = Some (Continue ?s')"
    by (simp add: step_def eofToken_def)
  with Nil show ?thesis by (intro exI [of _ ?s'] exI [of _ "[]"]) simp
next
  case (Cons u us)
  show ?thesis
  proof (cases "Type u = TokenBraceClose")
    case True
    let ?s' = "s\<lparr>newToken := t, newTokens := us, result := result s @ ''{}''\<rparr>"
    from assms Cons True have "step L C P s = Some (Continue ?s')"
      by (simp add: step_def)
    with Cons True show ?thesis by (intro exI [of _ ?s'] exI [of _ "[]"]) simp
  next
    case False
    let ?s' = "s\<lparr>newToken := t, newTokens := rest, result := result s @ ''{''\<rparr>"
    from assms Cons False have "step L C P s = Some (Continue ?s')"
      by (simp add: step_def)
    with Cons False show ?thesis by (intro exI [of _ ?s'] exI [of _ "[]"]) simp
  qed
qed

theorem empty_block_collapse_witness:
  "\<exists>s' pending. step [''struct S {}''] ''struct S {}'' ''struct S {}''
            \<lparr>newToken = lexed structOriginal ! 3, oldToken = lexed structOriginal ! 2,
             newTokens = drop 4 (lexed structOriginal), oldTokens = drop 3 (lexed structOriginal),
             result = ''struct S'', spaces = '' '', comment = []\<rparr>
          = Some (Continue s')
        \<and> newTokens s' = drop 6 (lexed structOriginal)
        \<and> oldTokens s' = drop 3 (lexed structOriginal)
        \<and> result s' = ''struct S'' @ pending @ ''{}''"
proof -
  let ?s = "\<lparr>newToken = lexed structOriginal ! 3, oldToken = lexed structOriginal ! 2,
             newTokens = drop 4 (lexed structOriginal), oldTokens = drop 3 (lexed structOriginal),
             result = ''struct S'', spaces = '' '', comment = []\<rparr>"
  have h1: "Type (newToken ?s) \<noteq> TokenEOF" by code_simp
  have h2: "newTokens ?s = lexed structOriginal ! 4 # drop 5 (lexed structOriginal)" by code_simp
  have h3: "Type (lexed structOriginal ! 4) = TokenBraceOpen" by code_simp
  have h4: "drop 5 (lexed structOriginal) \<noteq> [] \<and> Type (hd (drop 5 (lexed structOriginal))) = TokenBraceClose"
    by code_simp
  have h5: "tl (drop 5 (lexed structOriginal)) = drop 6 (lexed structOriginal)" by code_simp
  from empty_block_collapse [OF h1 h2 h3, of "[''struct S {}'']" "''struct S {}''" "''struct S {}''"]
    h4 h5
  show ?thesis by auto
qed

text \<open>
  The claim as stated has an open brace, a line break, an indent and a close brace
  collapse to \<^verbatim>\<open>{}\<close>.  The token after the open brace is then a whitespace token, so
  nothing collapses: the output keeps the close brace on its own line.
\<close>

theorem spread_braces_not_collapsed:
  "prettyCodeOn structOriginal structSpread = Some (''struct S{ '' @ [NL] @ ''    }'')
   \<and> \<not> sublist ''{}'' (''struct S{ '' @ [NL] @ ''    }'')"
  by code_simp

text \<open>
  Claim C3 fails on the code.  \<^verbatim>\<open>pub fun main() {}\<close> is its own rendering, and
  \<open>prettyCode\<close> returns \<^verbatim>\<open>pub fun main(){}\<close>: the brace branch writes to the result
  without writing the spacing buffer first, as the branch for parentheses and brackets
  does.
\<close>

theorem canonical_input_not_reproduced:
  "pretty Inr (rendersTo ''pub fun main() {}'') ''pub fun main() {}'' 80 = ''pub fun main() {}''
   \<and> prettyCodeOn mainCanonical mainCanonical = Some ''pub fun main(){}''"
  by code_simp

section \<open>Parse failure\<close>




section \<open>Whitespace at the end of the rendering\<close>

lemma commentCase_other:
  "Type t \<noteq> TokenLineComment \<Longrightarrow> Type t \<noteq> TokenBlockCommentContent
     \<Longrightarrow> commentCase L C sp t rc = Some rc"
  by (simp add: commentCase_def)

lemma resyncOld_no_comments:
  "\<forall>t \<in> set old. Type t \<noteq> TokenLineComment \<and> Type t \<noteq> TokenBlockCommentContent
     \<Longrightarrow> \<exists>t rest. resyncOld L C sp ty old rc = Some (t, rest, rc)
            \<and> suffix rest old"
proof (induction old)
  case Nil
  then show ?case by simp
next
  case (Cons u us)
  then obtain t rest where "resyncOld L C sp ty us rc = Some (t, rest, rc)" "suffix rest us"
    by auto
  with Cons.prems show ?case by (auto simp: commentCase_other intro: suffix_ConsI)
qed

lemma step_at_end:
  assumes "Type (newToken s) \<noteq> TokenEOF"
      and "newTokens s = [] \<or> Type (hd (newTokens s)) = TokenEOF"
  shows "step L C P s =
           (if Type (oldToken s) = TokenEOF then Some (Finished (result s @ comment s))
            else case resyncOld L C (spaces s) TokenEOF (oldTokens s) (result s, comment s) of
                   None \<Rightarrow> None
                 | Some (old, olds, res, com) \<Rightarrow> Some (Finished (res @ com)))"
proof (cases "newTokens s")
  case Nil
  with assms(1) show ?thesis
    by (auto simp: step_def eofToken_def ignoredTokenTypes_def
          split: option.splits dest: resyncOld_stops)
next
  case (Cons u us)
  with assms show ?thesis
    by (auto simp: step_def ignoredTokenTypes_def split: option.splits dest: resyncOld_stops)
qed

lemma mergeLoop_trailing_spaces:
  assumes "Type (newToken s) \<noteq> TokenEOF"
      and "newTokens s = ws @ rest"
      and "\<forall>w \<in> set ws. Type w = TokenSpace \<and> extractTokenText P w = Some (txt w)"
      and "rest = [] \<or> Type (hd rest) = TokenEOF"
  shows "mergeLoop L C P s =
           (if Type (oldToken s) = TokenEOF then Some (result s @ comment s)
            else case resyncOld L C (spaces s @ concat (map txt ws)) TokenEOF (oldTokens s)
                        (result s, comment s) of
                   None \<Rightarrow> None
                 | Some (old, olds, res, com) \<Rightarrow> Some (res @ com))"
  using assms
proof (induction ws arbitrary: s)
  case Nil
  then have "newTokens s = [] \<or> Type (hd (newTokens s)) = TokenEOF" by auto
  from step_at_end [OF Nil.prems(1) this, of L C P] show ?case
    by (simp add: mergeLoop.simps [of L C P s] split: option.splits)
next
  case (Cons w ws)
  let ?s' = "s\<lparr>newToken := w, newTokens := ws @ rest, spaces := spaces s @ txt w\<rparr>"
  from Cons.prems have st: "step L C P s = Some (Continue ?s')"
    by (simp add: step_def)
  have "mergeLoop L C P ?s' =
           (if Type (oldToken ?s') = TokenEOF then Some (result ?s' @ comment ?s')
            else case resyncOld L C (spaces ?s' @ concat (map txt ws)) TokenEOF (oldTokens ?s')
                        (result ?s', comment ?s') of
                   None \<Rightarrow> None
                 | Some (old, olds, res, com) \<Rightarrow> Some (res @ com))"
    using Cons.prems by (intro Cons.IH) simp_all
  with st show ?case by (simp add: mergeLoop.simps [of L C P s])
qed

text \<open>
  Claim C10.  When only whitespace tokens are left in the new stream before its end, the
  loop returns what draining the old stream makes of \<open>result\<close> and \<open>comment\<close>: the pending
  spacing buffer and the texts of those whitespace tokens are handed to the comment
  classifier, which only tests them for a double line break, and are never appended.
  With no comment left in the old stream the output is \<open>result\<close> followed by \<open>comment\<close>.
\<close>

theorem pending_whitespace_discarded:
  assumes "Type (newToken s) \<noteq> TokenEOF"
      and "newTokens s = ws @ rest"
      and "\<forall>w \<in> set ws. Type w = TokenSpace \<and> extractTokenText P w = Some (txt w)"
      and "rest = [] \<or> Type (hd rest) = TokenEOF"
  shows "mergeLoop L C P s =
           (if Type (oldToken s) = TokenEOF then Some (result s @ comment s)
            else case resyncOld L C (spaces s @ concat (map txt ws)) TokenEOF (oldTokens s)
                        (result s, comment s) of
                   None \<Rightarrow> None
                 | Some (old, olds, res, com) \<Rightarrow> Some (res @ com))
         \<and> ((\<forall>t \<in> set (oldTokens s).
                Type t \<noteq> TokenLineComment \<and> Type t \<noteq> TokenBlockCommentContent)
              \<longrightarrow> mergeLoop L C P s = Some (result s @ comment s))"
proof (intro conjI impI)
  show main: "mergeLoop L C P s =
           (if Type (oldToken s) = TokenEOF then Some (result s @ comment s)
            else case resyncOld L C (spaces s @ concat (map txt ws)) TokenEOF (oldTokens s)
                        (result s, comment s) of
                   None \<Rightarrow> None
                 | Some (old, olds, res, com) \<Rightarrow> Some (res @ com))"
    using assms by (rule mergeLoop_trailing_spaces)
  assume "\<forall>t \<in> set (oldTokens s).
            Type t \<noteq> TokenLineComment \<and> Type t \<noteq> TokenBlockCommentContent"
  then obtain t rest' where
    "resyncOld L C (spaces s @ concat (map txt ws)) TokenEOF (oldTokens s) (result s, comment s)
       = Some (t, rest', (result s, comment s))"
    using resyncOld_no_comments by blast
  with main show "mergeLoop L C P s = Some (result s @ comment s)" by simp
qed

theorem pending_whitespace_discarded_witness:
  "mergeLoop [''let x = 1''] ''let x = 1'' (''let x = 1'' @ [NL])
     \<lparr>newToken = lexed letNewlineRendered ! 6, oldToken = lexed letRendered ! 6,
      newTokens = drop 7 (lexed letNewlineRendered), oldTokens = drop 7 (lexed letRendered),
      result = ''let x = 1'', spaces = [], comment = []\<rparr>
   = Some ''let x = 1''
   \<and> prettyCodeOn letRendered letNewlineRendered = Some ''let x = 1''"
proof -
  let ?s = "\<lparr>newToken = lexed letNewlineRendered ! 6, oldToken = lexed letRendered ! 6,
      newTokens = drop 7 (lexed letNewlineRendered), oldTokens = drop 7 (lexed letRendered),
      result = ''let x = 1'', spaces = [], comment = []\<rparr>"
  let ?P = "''let x = 1'' @ [NL]"
  have h1: "Type (newToken ?s) \<noteq> TokenEOF" by code_simp
  have h2: "newTokens ?s = [lexed letNewlineRendered ! 7] @ [lexed letNewlineRendered ! 8]"
    by code_simp
  have h3: "\<forall>w \<in> set [lexed letNewlineRendered ! 7].
              Type w = TokenSpace \<and> extractTokenText ?P w = Some ((\<lambda>w. [NL]) w)"
    by code_simp
  have h4: "[lexed letNewlineRendered ! 8] = [] \<or> Type (hd [lexed letNewlineRendered ! 8]) = TokenEOF"
    by code_simp
  have h5: "\<forall>t \<in> set (oldTokens ?s).
              Type t \<noteq> TokenLineComment \<and> Type t \<noteq> TokenBlockCommentContent"
    by code_simp
  have h6: "prettyCodeOn letRendered letNewlineRendered = Some ''let x = 1''" by code_simp
  have "(\<forall>t \<in> set (oldTokens ?s).
            Type t \<noteq> TokenLineComment \<and> Type t \<noteq> TokenBlockCommentContent)
          \<longrightarrow> mergeLoop [''let x = 1''] ''let x = 1'' ?P ?s = Some (result ?s @ comment ?s)"
    using pending_whitespace_discarded [OF h1 h2 h3 h4, of "[''let x = 1'']" "''let x = 1''"]
    by (rule conjunct2)
  from this h5 have "mergeLoop [''let x = 1''] ''let x = 1'' ?P ?s = Some (result ?s @ comment ?s)"
    by (rule mp)
  with h6 show ?thesis by simp
qed

section \<open>Conservation of comments\<close>

subsection \<open>Indenting keeps a text that has no line break\<close>

lemma SplitAfter_nonempty: "SplitAfter s \<noteq> []"
  by (induction s) (auto split: list.splits)

lemma prefix_first_line:
  "NL \<notin> set T \<Longrightarrow> prefix T s \<Longrightarrow> prefix T (hd (SplitAfter s))"
proof (induction s arbitrary: T)
  case Nil
  then show ?case by simp
next
  case (Cons c cs)
  show ?case
  proof (cases T)
    case Nil
    then show ?thesis by simp
  next
    case (Cons d T')
    with Cons.prems have "d = c" "c \<noteq> NL" "NL \<notin> set T'" "prefix T' cs" by auto
    with Cons.IH [of T'] Cons show ?thesis
      using SplitAfter_nonempty [of cs] by (auto split: list.splits)
  qed
qed

lemma sublist_some_line:
  "NL \<notin> set T \<Longrightarrow> sublist T s \<Longrightarrow> \<exists>l \<in> set (SplitAfter s). sublist T l"
proof (induction s)
  case Nil
  then show ?case by simp
next
  case (Cons c cs)
  from Cons.prems(2) consider "prefix T (c # cs)" | "sublist T cs"
    by (auto simp: sublist_Cons_right)
  then show ?case
  proof cases
    case 1
    with Cons.prems(1) have "prefix T (hd (SplitAfter (c # cs)))"
      by (rule prefix_first_line)
    moreover have "hd (SplitAfter (c # cs)) \<in> set (SplitAfter (c # cs))"
      using SplitAfter_nonempty by (intro hd_in_set)
    ultimately show ?thesis by blast
  next
    case 2
    with Cons obtain l where l: "l \<in> set (SplitAfter cs)" "sublist T l" by blast
    show ?thesis
    proof (cases "c = NL")
      case True
      with l show ?thesis by auto
    next
      case False
      obtain l0 ls where sp: "SplitAfter cs = l0 # ls"
        using SplitAfter_nonempty [of cs] by (cases "SplitAfter cs") auto
      show ?thesis
      proof (cases "l = l0")
        case True
        with l(2) have "sublist T (c # l0)" by (simp add: sublist_Cons_right)
        with False sp show ?thesis by simp
      next
        case False
        with l sp \<open>c \<noteq> NL\<close> show ?thesis by auto
      qed
    qed
  qed
qed



lemma sublist_concat_member: "x \<in> set xs \<Longrightarrow> sublist x (concat xs)"
proof -
  assume "x \<in> set xs"
  then obtain a b where "xs = a @ x # b" by (auto dest: split_list)
  then show ?thesis by simp
qed

lemma sublist_prepend: "sublist T l \<Longrightarrow> sublist T (p @ l)"
proof -
  assume "sublist T l"
  then obtain a b where "l = a @ T @ b" by (auto simp: sublist_def)
  then have "p @ l = (p @ a) @ T @ b" by simp
  then show ?thesis unfolding sublist_def by blast
qed

lemma sublist_append_right: "sublist T l \<Longrightarrow> sublist T (l @ q)"
proof -
  assume "sublist T l"
  then obtain a b where "l = a @ T @ b" by (auto simp: sublist_def)
  then have "l @ q = a @ T @ (b @ q)" by simp
  then show ?thesis unfolding sublist_def by blast
qed

lemma in_butlast: "l \<in> set xs \<Longrightarrow> l \<noteq> last xs \<Longrightarrow> l \<in> set (butlast xs)"
proof -
  assume a: "l \<in> set xs" "l \<noteq> last xs"
  then have "xs \<noteq> []" by auto
  then have "xs = butlast xs @ [last xs]" by simp
  then have "set xs = set (butlast xs) \<union> {last xs}"
    by (metis list.set(1) list.simps(15) set_append)
  with a show ?thesis by auto
qed

lemma sublist_indentString:
  assumes "NL \<notin> set T" and "sublist T s"
  shows "sublist T (indentString p s)"
proof (cases "T = [] \<or> p = [] \<or> s = []")
  case True
  with assms show ?thesis by (auto simp: indentString_def)
next
  case False
  from assms obtain l where l: "l \<in> set (SplitAfter s)" "sublist T l"
    using sublist_some_line by blast
  define ls where "ls = (if last (SplitAfter s) = [] then butlast (SplitAfter s) else SplitAfter s)"
  from False l(2) have "l \<noteq> []" by auto
  have "l \<in> set ls"
  proof (cases "last (SplitAfter s) = []")
    case True
    with l(1) \<open>l \<noteq> []\<close> have "l \<in> set (butlast (SplitAfter s))"
      by (intro in_butlast) auto
    with True show ?thesis by (simp add: ls_def)
  next
    case False
    with l(1) show ?thesis by (simp add: ls_def)
  qed
  then have "p @ l \<in> set (map (\<lambda>l. p @ l) ls)" by simp
  then have "sublist (p @ l) (concat (map (\<lambda>l. p @ l) ls))"
    by (rule sublist_concat_member)
  moreover have "sublist T (p @ l)"
    using l(2) by (rule sublist_prepend)
  ultimately have "sublist T (concat (map (\<lambda>l. p @ l) ls))"
    by (rule sublist_order.order.trans [rotated])
  with False show ?thesis by (simp add: indentString_def ls_def Let_def)
qed

subsection \<open>The comment classifier appends\<close>

lemma lineCommentCase_SomeD:
  "lineCommentCase L C sp u rc = Some rc' \<Longrightarrow>
     \<exists>ln before tx. goIndex L (Line (StartPos u) - 1) = Some ln
        \<and> goSlice ln 0 (Column (StartPos u)) = Some before
        \<and> extractTokenText C u = Some tx"
  by (cases rc) (auto simp: lineCommentCase_def Let_def split: bind_splits if_splits)

lemma lineCommentCase_shape:
  assumes "lineCommentCase L C sp u (r, c) = Some (r', c')"
  shows "\<exists>tx a b. extractTokenText C u = Some tx
           \<and> ((r' = r \<and> c' = c @ a @ tx @ b) \<or> (r' = r @ [SP] @ c @ tx \<and> c' = []))"
proof -
  from lineCommentCase_SomeD [OF assms] obtain ln before tx where
    h: "goIndex L (Line (StartPos u) - 1) = Some ln"
       "goSlice ln 0 (Column (StartPos u)) = Some before"
       "extractTokenText C u = Some tx"
    by blast
  show ?thesis
  proof (cases "set before \<subseteq> {SP, TAB}")
    case True
    define a where "a = (if 1 < Line (StartPos u)
                            \<and> set (L ! nat (Line (StartPos u) - 2)) \<subseteq> {SP, TAB}
                            \<and> \<not> HasSuffix (Replace sp SP []) [NL, NL] then [NL] else [])"
    define b where "b = (if Line (StartPos u) < int (length L)
                            \<and> set (L ! nat (Line (StartPos u))) \<subseteq> {SP, TAB} then [NL] else [])
                        @ [NL]"
    from lineCommentCase_leading [OF h True, of sp r c] assms
    have "r' = r" "c' = c @ a @ tx @ b" by (simp_all add: a_def b_def)
    with h(3) show ?thesis by blast
  next
    case False
    from lineCommentCase_trailing [OF h False, of sp r c] assms
    have "r' = r @ [SP] @ c @ tx \<and> c' = []" by auto
    with h(3) show ?thesis by blast
  qed
qed

lemma blockCommentCase_shape:
  assumes "blockCommentCase C u (r, c) = Some (r', c')"
  shows "\<exists>tx b. extractTokenText C u = Some tx \<and> r' = r \<and> c' = c @ (''/*'' @ tx @ ''*/'') @ b"
  using assms by (auto simp: blockCommentCase_def Let_def split: bind_splits if_splits)

lemma commentCase_shape:
  assumes "commentCase L C sp u (r, c) = Some (r', c')"
  shows "(\<exists>b. r' = r \<and> c' = c @ b) \<or> (\<exists>b. r' = r @ [SP] @ c @ b \<and> c' = [])"
proof -
  consider "Type u = TokenLineComment" | "Type u \<noteq> TokenLineComment" "Type u = TokenBlockCommentContent"
    | "Type u \<noteq> TokenLineComment" "Type u \<noteq> TokenBlockCommentContent" by blast
  then show ?thesis
  proof cases
    case 1
    with assms have "lineCommentCase L C sp u (r, c) = Some (r', c')" by (simp add: commentCase_def)
    from lineCommentCase_shape [OF this] show ?thesis by auto
  next
    case 2
    with assms have "blockCommentCase C u (r, c) = Some (r', c')" by (simp add: commentCase_def)
    from blockCommentCase_shape [OF this] show ?thesis by auto
  next
    case 3
    with assms show ?thesis by (simp add: commentCase_def)
  qed
qed

lemma commentCase_keeps:
  assumes "commentCase L C sp u (r, c) = Some (r', c')"
      and "sublist T r \<or> sublist T c"
  shows "sublist T r' \<or> sublist T c'"
proof -
  from commentCase_shape [OF assms(1)] consider b where "r' = r" "c' = c @ b"
    | b where "r' = r @ [SP] @ c @ b" "c' = []" by blast
  then show ?thesis
  proof cases
    case 1
    with assms(2) show ?thesis by (auto intro: sublist_append_right)
  next
    case 2
    from assms(2) have "sublist T (r @ [SP] @ c @ b)"
    proof
      assume "sublist T r"
      then show ?thesis by (rule sublist_append_right)
    next
      assume "sublist T c"
      then have "sublist T (c @ b)" by (rule sublist_append_right)
      then have "sublist T ((r @ [SP]) @ c @ b)" by (rule sublist_prepend)
      then show ?thesis by simp
    qed
    with 2 show ?thesis by simp
  qed
qed

lemma commentCase_own:
  assumes "commentCase L C sp u (r, c) = Some (r', c')"
      and "writtenAs C u T"
  shows "sublist T r' \<or> sublist T c'"
proof (cases "Type u = TokenLineComment")
  case True
  with assms have a: "lineCommentCase L C sp u (r, c) = Some (r', c')" "extractTokenText C u = Some T"
    by (auto simp: commentCase_def writtenAs_def)
  from lineCommentCase_shape [OF a(1)] a(2) consider x y where "c' = c @ x @ T @ y"
    | "r' = r @ [SP] @ c @ T" by auto
  then show ?thesis
  proof cases
    case 1
    then have "c' = (c @ x) @ T @ y" by simp
    then show ?thesis unfolding sublist_def by blast
  next
    case 2
    then have "r' = (r @ [SP] @ c) @ T @ []" by simp
    then show ?thesis unfolding sublist_def by blast
  qed
next
  case False
  with assms obtain tx where
    a: "blockCommentCase C u (r, c) = Some (r', c')" "extractTokenText C u = Some tx"
       "T = ''/*'' @ tx @ ''*/''"
    by (auto simp: commentCase_def writtenAs_def)
  from blockCommentCase_shape [OF a(1)] a(2) obtain b where "c' = c @ (''/*'' @ tx @ ''*/'') @ b"
    by auto
  with a(3) have "c' = c @ T @ b" by simp
  then show ?thesis unfolding sublist_def by blast
qed

subsection \<open>The invariant through the loops\<close>

lemma ahead_Nil [simp]: "\<not> ahead u []"
  by (simp add: ahead_def)

lemma ahead_Cons: "ahead u (v # vs) \<longleftrightarrow> Type v \<noteq> TokenEOF \<and> (u = v \<or> ahead u vs)"
  by (auto simp: ahead_def)

lemma resyncOld_conserves:
  assumes "resyncOld L C sp ty olds (r, c) = Some (t, rest, r', c')"
      and "writtenAs C u T"
      and "sublist T r \<or> sublist T c \<or> ahead u olds"
  shows "sublist T r' \<or> sublist T c' \<or> (Type t \<noteq> TokenEOF \<and> ahead u rest)"
  using assms(1,3)
proof (induction olds arbitrary: r c)
  case Nil
  then show ?case by auto
next
  case (Cons v vs)
  from Cons.prems(1) obtain r1 c1 where
    cc: "commentCase L C sp v (r, c) = Some (r1, c1)"
    by (auto split: option.splits)
  have inv1: "sublist T r1 \<or> sublist T c1 \<or> (Type v \<noteq> TokenEOF \<and> ahead u vs)"
  proof -
    from Cons.prems(2) consider "sublist T r \<or> sublist T c" | "Type v \<noteq> TokenEOF" "u = v"
      | "Type v \<noteq> TokenEOF" "ahead u vs"
      by (auto simp: ahead_Cons)
    then show ?thesis
    proof cases
      case 1
      with cc show ?thesis by (auto dest: commentCase_keeps)
    next
      case 2
      with cc assms(2) show ?thesis by (auto dest: commentCase_own)
    next
      case 3
      then show ?thesis by simp
    qed
  qed
  show ?case
  proof (cases "Type v = ty \<or> Type v = TokenEOF")
    case True
    with Cons.prems(1) cc have "t = v" "rest = vs" "r' = r1" "c' = c1" by auto
    with inv1 show ?thesis by simp
  next
    case False
    with Cons.prems(1) cc have "resyncOld L C sp ty vs (r1, c1) = Some (t, rest, r', c')" by auto
    moreover from inv1 have "sublist T r1 \<or> sublist T c1 \<or> ahead u vs" by blast
    ultimately show ?thesis by (rule Cons.IH)
  qed
qed

lemma emitToken_conserves:
  assumes "emitToken P tok res sp com = Some res'"
      and "NL \<notin> set T"
      and "sublist T res \<or> sublist T com"
  shows "sublist T res'"
proof (cases "com = []")
  case True
  with assms(3) have "sublist T res" by auto
  moreover from assms(1) True obtain x where "res' = res @ x"
    by (auto simp: emitToken_def Let_def split: bind_splits)
  ultimately show ?thesis by (simp add: sublist_append_right)
next
  case False
  with assms(1) obtain padding tx where
    r: "res' = (res @ TrimRight sp [SP]) @ indentString padding com @ (padding @ tx)"
    by (auto simp: emitToken_def Let_def split: bind_splits)
  from assms(3) show ?thesis
  proof
    assume "sublist T res"
    then have "sublist T (res @ (TrimRight sp [SP] @ indentString padding com @ padding @ tx))"
      by (rule sublist_append_right)
    with r show ?thesis by simp
  next
    assume "sublist T com"
    with assms(2) have "sublist T (indentString padding com)" by (rule sublist_indentString)
    then have "sublist T (indentString padding com @ (padding @ tx))" by (rule sublist_append_right)
    then have "sublist T ((res @ TrimRight sp [SP]) @ indentString padding com @ (padding @ tx))"
      by (rule sublist_prepend)
    with r show ?thesis by simp
  qed
qed

lemma resync_in_step:
  assumes "(if Type (oldToken s) \<noteq> TokenEOF
            then resyncOld L C (spaces s) ty (oldTokens s) (result s, comment s)
            else Some (oldToken s, oldTokens s, result s, comment s)) = Some (old, olds, res, com)"
      and "writtenAs C u T"
      and "conserved u T s"
  shows "sublist T res \<or> sublist T com \<or> (Type old \<noteq> TokenEOF \<and> ahead u olds)"
proof (cases "Type (oldToken s) \<noteq> TokenEOF")
  case True
  with assms(1) have "resyncOld L C (spaces s) ty (oldTokens s) (result s, comment s)
                        = Some (old, olds, res, com)" by simp
  moreover from assms(3) have "sublist T (result s) \<or> sublist T (comment s) \<or> ahead u (oldTokens s)"
    by (auto simp: conserved_def)
  ultimately show ?thesis using assms(2) by (intro resyncOld_conserves)
next
  case False
  with assms(1,3) show ?thesis by (auto simp: conserved_def)
qed

lemma step_conserves:
  assumes "step L C P s = Some (Continue s')"
      and "writtenAs C u T" and "NL \<notin> set T"
      and "conserved u T s"
  shows "conserved u T s'"
proof -
  obtain tok toks where nx: "(if Type (newToken s) \<noteq> TokenEOF then Next (newTokens s)
            else (newToken s, newTokens s)) = (tok, toks)"
    by (cases "(if Type (newToken s) \<noteq> TokenEOF then Next (newTokens s)
            else (newToken s, newTokens s))") auto
  consider "Type tok = TokenSpace" | "Type tok \<noteq> TokenSpace" "Type tok = TokenBraceOpen"
    | "Type tok \<noteq> TokenSpace" "Type tok \<noteq> TokenBraceOpen" "Type tok \<in> set ignoredTokenTypes"
    | "Type tok \<noteq> TokenSpace" "Type tok \<noteq> TokenBraceOpen" "Type tok \<notin> set ignoredTokenTypes"
    by blast
  then show ?thesis
  proof cases
    case 1
    with assms(1) nx obtain x where "s' = s\<lparr>newToken := tok, newTokens := toks, spaces := spaces s @ x\<rparr>"
      by (auto simp: step_def split: bind_splits)
    with assms(4) show ?thesis by (simp add: conserved_def)
  next
    case 2
    with assms(1) nx obtain toks' x where
      "s' = s\<lparr>newToken := tok, newTokens := toks', result := result s @ x\<rparr>"
      by (auto simp: step_def split: prod.splits if_splits)
    with assms(4) show ?thesis by (auto simp: conserved_def intro: sublist_append_right)
  next
    case 3
    with assms(1) nx obtain x where
      "s' = s\<lparr>newToken := tok, newTokens := toks, result := result s @ x, spaces := []\<rparr>"
      by (auto simp: step_def split: bind_splits)
    with assms(4) show ?thesis by (auto simp: conserved_def intro: sublist_append_right)
  next
    case 4
    with assms(1) nx obtain old olds res com res' where
      rs: "(if Type (oldToken s) \<noteq> TokenEOF
            then resyncOld L C (spaces s) (Type tok) (oldTokens s) (result s, comment s)
            else Some (oldToken s, oldTokens s, result s, comment s)) = Some (old, olds, res, com)"
      and em: "emitToken P tok res (spaces s) com = Some res'"
      and s': "s' = \<lparr>newToken = tok, oldToken = old, newTokens = toks, oldTokens = olds,
                     result = res', spaces = [], comment = []\<rparr>"
      by (auto simp: step_def split: bind_splits if_splits)
    from resync_in_step [OF rs assms(2,4)]
    have "sublist T res \<or> sublist T com \<or> (Type old \<noteq> TokenEOF \<and> ahead u olds)" .
    then show ?thesis
    proof (elim disjE)
      assume "sublist T res"
      with em assms(3) have "sublist T res'" by (auto intro: emitToken_conserves)
      with s' show ?thesis by (simp add: conserved_def)
    next
      assume "sublist T com"
      with em assms(3) have "sublist T res'" by (auto intro: emitToken_conserves)
      with s' show ?thesis by (simp add: conserved_def)
    next
      assume "Type old \<noteq> TokenEOF \<and> ahead u olds"
      with s' show ?thesis by (simp add: conserved_def)
    qed
  qed
qed

lemma step_finished_conserves:
  assumes "step L C P s = Some (Finished out)"
      and "writtenAs C u T"
      and "conserved u T s"
  shows "sublist T out"
proof -
  obtain tok toks where nx: "(if Type (newToken s) \<noteq> TokenEOF then Next (newTokens s)
            else (newToken s, newTokens s)) = (tok, toks)"
    by (cases "(if Type (newToken s) \<noteq> TokenEOF then Next (newTokens s)
            else (newToken s, newTokens s))") auto
  from assms(1) nx obtain old olds res com where
      rs: "(if Type (oldToken s) \<noteq> TokenEOF
            then resyncOld L C (spaces s) (Type tok) (oldTokens s) (result s, comment s)
            else Some (oldToken s, oldTokens s, result s, comment s)) = Some (old, olds, res, com)"
      and fin: "Type old = TokenEOF" "out = res @ com"
    by (auto simp: step_def split: bind_splits if_splits prod.splits)
  from resync_in_step [OF rs assms(2,3)] fin(1)
  have "sublist T res \<or> sublist T com" by simp
  with fin(2) show ?thesis by (auto intro: sublist_append_right sublist_prepend)
qed

lemma mergeLoop_conserves:
  assumes "mergeLoop L C P s = Some out"
      and "writtenAs C u T" and "NL \<notin> set T"
      and "conserved u T s"
  shows "sublist T out"
  using assms
proof (induction L C P s rule: mergeLoop.induct)
  case (1 L C P s)
  show ?case
  proof (cases "step L C P s")
    case None
    with "1.prems"(1) show ?thesis by (simp add: mergeLoop.simps [of L C P s])
  next
    case (Some oc)
    show ?thesis
    proof (cases oc)
      case (Finished out')
      with Some "1.prems"(1) have "out' = out" by (simp add: mergeLoop.simps [of L C P s])
      with Some Finished have "step L C P s = Some (Finished out)" by simp
      from this "1.prems"(2,4) show ?thesis by (rule step_finished_conserves)
    next
      case (Continue s')
      with Some have st: "step L C P s = Some (Continue s')" by simp
      with "1.prems"(1) have ml: "mergeLoop L C P s' = Some out"
        by (simp add: mergeLoop.simps [of L C P s])
      from st "1.prems"(2,3,4) have "conserved u T s'" by (rule step_conserves)
      with ml "1.prems"(2,3) Some Continue show ?thesis by (intro "1.IH") auto
    qed
  qed
qed

text \<open>
  Claim C1, as amended.  Whenever \<open>prettyCode\<close> returns a merged text (the rendering is
  not a \<^verbatim>\<open>Parsing failed \<close> message), every comment token of the original that comes before
  its end of input and whose text has no line break is in the output: a line comment
  verbatim, a block comment's content between \<^verbatim>\<open>/*\<close> and \<^verbatim>\<open>*/\<close>.  No assumption on how the
  kinds of the two streams line up is needed.
\<close>

theorem comment_conservation:
  assumes "prettyCode Lex ParseProgram Prettier code w = Some out"
      and "\<not> HasPrefix (pretty ParseProgram Prettier code w) ''Parsing failed ''"
      and "u \<in> set (takeWhile (\<lambda>t. Type t \<noteq> TokenEOF) (Lex code))"
      and "extractTokenText code u = Some tx"
      and "NL \<notin> set tx"
  shows "(Type u = TokenLineComment \<longrightarrow> sublist tx out)
         \<and> (Type u = TokenBlockCommentContent \<longrightarrow> sublist (''/*'' @ tx @ ''*/'') out)"
proof -
  let ?R = "pretty ParseProgram Prettier code w"
  let ?s = "initialState (Lex code) (Lex ?R)"
  from assms(1,2) have ml: "mergeLoop (Split code) code ?R ?s = Some out"
    by (simp add: prettyCode_def Let_def)
  from assms(3) have inv: "\<And>T. conserved u T ?s"
    by (simp add: conserved_def ahead_def initialState_def initialToken_def)
  show ?thesis
  proof (intro conjI impI)
    assume "Type u = TokenLineComment"
    with assms(4) have "writtenAs code u tx" by (simp add: writtenAs_def)
    with ml show "sublist tx out" using assms(5) inv by (rule mergeLoop_conserves)
  next
    assume "Type u = TokenBlockCommentContent"
    with assms(4) have "writtenAs code u (''/*'' @ tx @ ''*/'')" by (simp add: writtenAs_def)
    moreover from assms(5) have "NL \<notin> set (''/*'' @ tx @ ''*/'')" by simp
    ultimately show "sublist (''/*'' @ tx @ ''*/'') out" using ml inv
      by (intro mergeLoop_conserves)
  qed
qed

theorem comment_conservation_witness:
  "prettyCodeOn blockNoteOriginal letRendered = Some ''let x = 1 /* c */// note''
   \<and> sublist ''// note'' ''let x = 1 /* c */// note''
   \<and> sublist ''/* c */'' ''let x = 1 /* c */// note''"
proof -
  let ?code = "concat (map snd blockNoteOriginal)"
  let ?out = "''let x = 1 /* c */// note''"
  have h1: "prettyCode (lexerOf blockNoteOriginal letRendered) Inr
              (rendersTo (concat (map snd letRendered))) ?code 80 = Some ?out"
    by code_simp
  have h2: "\<not> HasPrefix (pretty Inr (rendersTo (concat (map snd letRendered))) ?code 80)
              ''Parsing failed ''"
    by code_simp
  have l3: "lexed blockNoteOriginal ! 12
              \<in> set (takeWhile (\<lambda>t. Type t \<noteq> TokenEOF) (lexerOf blockNoteOriginal letRendered ?code))"
    by code_simp
  have l4: "extractTokenText ?code (lexed blockNoteOriginal ! 12) = Some ''// note''"
    by code_simp
  have l5: "NL \<notin> set ''// note''" by simp
  have l6: "Type (lexed blockNoteOriginal ! 12) = TokenLineComment" by code_simp
  have b3: "lexed blockNoteOriginal ! 9
              \<in> set (takeWhile (\<lambda>t. Type t \<noteq> TokenEOF) (lexerOf blockNoteOriginal letRendered ?code))"
    by code_simp
  have b4: "extractTokenText ?code (lexed blockNoteOriginal ! 9) = Some '' c ''"
    by code_simp
  have b5: "NL \<notin> set '' c ''" by simp
  have b6: "Type (lexed blockNoteOriginal ! 9) = TokenBlockCommentContent" by code_simp
  from comment_conservation [OF h1 h2 l3 l4 l5] l6 have "sublist ''// note'' ?out" by simp
  moreover
  from comment_conservation [OF h1 h2 b3 b4 b5] b6 have "sublist ''/* c */'' ?out" by simp
  moreover
  from h1 have "prettyCodeOn blockNoteOriginal letRendered = Some ?out"
    by (simp add: prettyCodeOn_def)
  ultimately show ?thesis by simp
qed

text \<open>
  The claim as stated covers every block comment.  Pending comment text is indented line
  by line to the column of the next token, so a block comment of several lines comes out
  with its later lines shifted, although the streams are kind-compatible.
\<close>

theorem multiline_block_comment_reindented:
  "kindCompatible (lexed multilineOriginal) (lexed letRendered)
   \<and> sublist (''/* a'' @ [NL] @ ''b */'') (concat (map snd multilineOriginal))
   \<and> prettyCodeOn multilineOriginal letRendered
       = Some (''let x ='' @ replicate 8 SP @ ''/* a'' @ [NL] @ replicate 8 SP @ ''b */'' @ [NL]
               @ replicate 8 SP @ [NL] @ replicate 8 SP @ ''1'')
   \<and> \<not> sublist (''/* a'' @ [NL] @ ''b */'')
         (''let x ='' @ replicate 8 SP @ ''/* a'' @ [NL] @ replicate 8 SP @ ''b */'' @ [NL]
               @ replicate 8 SP @ [NL] @ replicate 8 SP @ ''1'')"
  by code_simp

section \<open>Passing a comment-free rendering through\<close>

subsection \<open>Whitespace of spaces and line breaks is written back unchanged\<close>

lemma stripTrailingSpace_Nil [simp]: "stripTrailingSpace [] = []"
  by (simp add: stripTrailingSpace_def)






subsection \<open>What one iteration does\<close>










subsection \<open>The loop\<close>










section \<open>Termination\<close>

lemma resyncOld_consumes:
  "resyncOld L C sp ty old rc = Some (t, rest, rc') \<Longrightarrow> suffix rest old"
proof (induction old arbitrary: rc)
  case Nil
  then show ?case by simp
next
  case (Cons u us)
  then show ?case
    by (auto split: option.splits if_splits intro: suffix_ConsI)
qed

lemma mergeLoopBounded_enough:
  "remaining s < n \<Longrightarrow> mergeLoopBounded n L C P s = Some (mergeLoop L C P s)"
proof (induction n arbitrary: s)
  case 0
  then show ?case by simp
next
  case (Suc n)
  show ?case
  proof (cases "step L C P s")
    case None
    then show ?thesis by (simp add: mergeLoop.simps)
  next
    case (Some oc)
    show ?thesis
    proof (cases oc)
      case (Finished out)
      with Some show ?thesis by (simp add: mergeLoop.simps)
    next
      case (Continue s')
      with Some have "remaining s' < remaining s" by (simp add: step_decreases)
      with Suc.prems have "remaining s' < n" by simp
      then have "mergeLoopBounded n L C P s' = Some (mergeLoop L C P s')" by (rule Suc.IH)
      with Some Continue show ?thesis by (simp add: mergeLoop.simps [of L C P s])
    qed
  qed
qed

subsection \<open>No panic on well-placed tokens\<close>

lemma extract_inText: "inText text t \<Longrightarrow> \<exists>x. extractTokenText text t = Some x"
  by (simp add: extractTokenText_def goSlice_def inText_def)

lemma commentCase_returns:
  assumes "wellPlacedOld L C t"
  shows "\<exists>rc'. commentCase L C sp t rc = Some rc'"
proof -
  obtain res com where rc: "rc = (res, com)" by (cases rc)
  consider "Type t = TokenLineComment"
    | "Type t \<noteq> TokenLineComment" "Type t = TokenBlockCommentContent"
    | "Type t \<noteq> TokenLineComment" "Type t \<noteq> TokenBlockCommentContent" by blast
  then show ?thesis
  proof cases
    case 1
    with assms have w: "inText C t" "1 \<le> Line (StartPos t)" "Line (StartPos t) \<le> int (length L)"
      "0 \<le> Column (StartPos t)"
      "Column (StartPos t) \<le> int (length (L ! nat (Line (StartPos t) - 1)))"
      by (simp_all add: wellPlacedOld_def)
    let ?ln = "L ! nat (Line (StartPos t) - 1)"
    from w(2,3) have a: "goIndex L (Line (StartPos t) - 1) = Some ?ln" by (simp add: goIndex_def)
    from w(4,5) have b: "goSlice ?ln 0 (Column (StartPos t))
                          = Some (take (nat (Column (StartPos t))) ?ln)"
      by (simp add: goSlice_def)
    from extract_inText [OF w(1)] obtain x where c: "extractTokenText C t = Some x" by blast
    have "\<exists>rc'. lineCommentCase L C sp t (res, com) = Some rc'"
    proof (cases "set (take (nat (Column (StartPos t))) ?ln) \<subseteq> {SP, TAB}")
      case True
      from lineCommentCase_leading [OF a b c True] show ?thesis by blast
    next
      case False
      from lineCommentCase_trailing [OF a b c False] show ?thesis by blast
    qed
    with 1 rc show ?thesis by (simp add: commentCase_def)
  next
    case 2
    with assms have "inText C t" by (simp add: wellPlacedOld_def)
    from extract_inText [OF this] obtain x where "extractTokenText C t = Some x" by blast
    with 2 rc show ?thesis by (simp add: commentCase_def blockCommentCase_def Let_def)
  next
    case 3
    then show ?thesis by (simp add: commentCase_def)
  qed
qed

lemma resyncOld_returns:
  "\<forall>t \<in> set olds. wellPlacedOld L C t \<Longrightarrow> \<exists>r. resyncOld L C sp ty olds rc = Some r"
proof (induction olds arbitrary: rc)
  case Nil
  then show ?case by simp
next
  case (Cons v vs)
  then have "wellPlacedOld L C v" by simp
  from commentCase_returns [OF this] obtain rc' where "commentCase L C sp v rc = Some rc'"
    by blast
  moreover from Cons have "\<exists>r. resyncOld L C sp ty vs rc' = Some r" by simp
  ultimately show ?case by auto
qed

lemma emitToken_returns:
  assumes "inText P t" and "0 \<le> Column (StartPos t)"
  shows "\<exists>r. emitToken P t res sp com = Some r"
proof -
  from extract_inText [OF assms(1)] obtain x where "extractTokenText P t = Some x" by blast
  moreover have "0 \<le> int (length sp) - (LastIndex sp NL + 1)"
    by (auto simp: LastIndex_def)
  ultimately show ?thesis using assms(2)
    by (simp add: emitToken_def Let_def Repeat_def)
qed

lemma step_returns:
  assumes "wellPlaced L C P s"
  shows "\<exists>oc. step L C P s = Some oc \<and> (\<forall>s'. oc = Continue s' \<longrightarrow> wellPlaced L C P s')"
proof -
  obtain tok toks where nx: "(if Type (newToken s) \<noteq> TokenEOF then Next (newTokens s)
            else (newToken s, newTokens s)) = (tok, toks)"
    by (cases "(if Type (newToken s) \<noteq> TokenEOF then Next (newTokens s)
            else (newToken s, newTokens s))") auto
  from assms have wn: "\<forall>t \<in> set (newTokens s). wellPlacedNew P t"
    and wo: "\<forall>t \<in> set (oldTokens s). wellPlacedOld L C t"
    by (simp_all add: wellPlaced_def)
  have sub: "set toks \<subseteq> set (newTokens s)"
    and tk: "Type tok \<noteq> TokenEOF \<Longrightarrow> inText P tok \<and> 0 \<le> Column (StartPos tok)"
  proof -
    have "set toks \<subseteq> set (newTokens s)
          \<and> (Type tok \<noteq> TokenEOF \<longrightarrow> tok \<in> set (newTokens s))"
    proof (cases "Type (newToken s) \<noteq> TokenEOF")
      case True
      with nx have n: "Next (newTokens s) = (tok, toks)" by simp
      show ?thesis
      proof (cases "newTokens s")
        case Nil
        with n show ?thesis by (auto simp: eofToken_def)
      next
        case (Cons a as)
        with n show ?thesis by auto
      qed
    next
      case False
      with nx show ?thesis by auto
    qed
    then show "set toks \<subseteq> set (newTokens s)"
      and "Type tok \<noteq> TokenEOF \<Longrightarrow> inText P tok \<and> 0 \<le> Column (StartPos tok)"
      using wn by (auto simp: wellPlacedNew_def)
  qed
  consider "Type tok = TokenSpace" | "Type tok \<noteq> TokenSpace" "Type tok = TokenBraceOpen"
    | "Type tok \<noteq> TokenSpace" "Type tok \<noteq> TokenBraceOpen" "Type tok \<in> set ignoredTokenTypes"
    | "Type tok \<noteq> TokenSpace" "Type tok \<noteq> TokenBraceOpen" "Type tok \<notin> set ignoredTokenTypes"
    by blast
  then show ?thesis
  proof cases
    case 1
    with tk obtain x where "extractTokenText P tok = Some x" by (auto dest: extract_inText)
    with 1 nx have "step L C P s
        = Some (Continue (s\<lparr>newToken := tok, newTokens := toks, spaces := spaces s @ x\<rparr>))"
      by (simp add: step_def)
    with wn wo sub show ?thesis by (auto simp: wellPlaced_def)
  next
    case 2
    obtain la toks' where la: "Next toks = (la, toks')" by (cases "Next toks")
    then have "set toks' \<subseteq> set toks" by (cases toks) auto
    with sub have sub': "set toks' \<subseteq> set (newTokens s)" by blast
    from 2 nx la have "step L C P s
        = Some (Continue (if Type la = TokenBraceClose
                          then s\<lparr>newToken := tok, newTokens := toks', result := result s @ ''{}''\<rparr>
                          else s\<lparr>newToken := tok, newTokens := toks, result := result s @ ''{''\<rparr>))"
      by (simp add: step_def)
    with wn wo sub sub' show ?thesis by (auto simp: wellPlaced_def)
  next
    case 3
    then have "Type tok \<noteq> TokenEOF" by (auto simp: ignoredTokenTypes_def)
    with tk obtain x where "extractTokenText P tok = Some x" by (auto dest: extract_inText)
    with 3 nx have "step L C P s
        = Some (Continue (s\<lparr>newToken := tok, newTokens := toks,
                            result := result s @ spaces s @ x, spaces := []\<rparr>))"
      by (simp add: step_def)
    with wn wo sub show ?thesis by (auto simp: wellPlaced_def)
  next
    case 4
    have "\<exists>old olds res com. (if Type (oldToken s) \<noteq> TokenEOF
            then resyncOld L C (spaces s) (Type tok) (oldTokens s) (result s, comment s)
            else Some (oldToken s, oldTokens s, result s, comment s)) = Some (old, olds, res, com)
          \<and> set olds \<subseteq> set (oldTokens s)
          \<and> (Type tok = TokenEOF \<longrightarrow> Type old = TokenEOF)"
    proof (cases "Type (oldToken s) \<noteq> TokenEOF")
      case True
      from resyncOld_returns [OF wo] obtain old olds res com where
        r: "resyncOld L C (spaces s) (Type tok) (oldTokens s) (result s, comment s)
              = Some (old, olds, res, com)"
        by (metis prod_cases4)
      from resyncOld_consumes [OF r] have "set olds \<subseteq> set (oldTokens s)"
        by (rule set_mono_suffix)
      moreover from resyncOld_stops [OF r] have "Type tok = TokenEOF \<longrightarrow> Type old = TokenEOF"
        by auto
      ultimately show ?thesis using True r by auto
    next
      case False
      then show ?thesis by auto
    qed
    then obtain old olds res com where
      rs: "(if Type (oldToken s) \<noteq> TokenEOF
            then resyncOld L C (spaces s) (Type tok) (oldTokens s) (result s, comment s)
            else Some (oldToken s, oldTokens s, result s, comment s)) = Some (old, olds, res, com)"
      and so: "set olds \<subseteq> set (oldTokens s)"
      and eo: "Type tok = TokenEOF \<longrightarrow> Type old = TokenEOF"
      by blast
    show ?thesis
    proof (cases "Type old = TokenEOF \<and> Type tok = TokenEOF")
      case True
      with 4 nx rs have "step L C P s = Some (Finished (res @ com))" by (simp add: step_def)
      then show ?thesis by simp
    next
      case False
      with eo have "Type tok \<noteq> TokenEOF" by auto
      with tk have "inText P tok" "0 \<le> Column (StartPos tok)" by simp_all
      from emitToken_returns [OF this] obtain res' where
        "emitToken P tok res (spaces s) com = Some res'" by blast
      with 4 nx rs False have "step L C P s
          = Some (Continue \<lparr>newToken = tok, oldToken = old, newTokens = toks, oldTokens = olds,
                           result = res', spaces = [], comment = []\<rparr>)"
        by (simp add: step_def)
      with wn wo sub so show ?thesis by (auto simp: wellPlaced_def)
    qed
  qed
qed

lemma mergeLoop_returns:
  "wellPlaced L C P s \<Longrightarrow> \<exists>out. mergeLoop L C P s = Some out"
proof (induction L C P s rule: mergeLoop.induct)
  case (1 L C P s)
  from step_returns [OF "1.prems"] obtain oc where
    st: "step L C P s = Some oc" and w: "\<forall>s'. oc = Continue s' \<longrightarrow> wellPlaced L C P s'"
    by blast
  show ?case
  proof (cases oc)
    case (Finished out)
    with st show ?thesis by (simp add: mergeLoop.simps [of L C P s])
  next
    case (Continue s')
    with st w have "\<exists>out. mergeLoop L C P s' = Some out" by (intro "1.IH") auto
    with st Continue show ?thesis by (simp add: mergeLoop.simps [of L C P s])
  qed
qed

text \<open>
  Claim C9.  The merge loop terminates: an iteration of the outer loop that does not end
  the loop leaves strictly less of the new stream (\<open>remaining\<close>), the resync sub-loop
  returns with an old token of the new token's kind or the end of input, having only
  moved forward in the old stream, and the loop bounded by \<open>remaining s + 1\<close> iterations
  ends with the result of the loop.  When the tokens of both streams are well placed the
  loop ends by returning a text, not by a panic.
\<close>

theorem merge_loop_terminates:
  "(step L C P s = Some (Continue s') \<longrightarrow> remaining s' < remaining s)
   \<and> (resyncOld L C sp ty old rc = Some (t, rest, rc')
        \<longrightarrow> (Type t = ty \<or> Type t = TokenEOF) \<and> suffix rest old)
   \<and> mergeLoopBounded (Suc (remaining s)) L C P s = Some (mergeLoop L C P s)
   \<and> (wellPlaced L C P s \<longrightarrow> (\<exists>out. mergeLoop L C P s = Some out))"
proof (intro conjI impI)
  assume "step L C P s = Some (Continue s')"
  then show "remaining s' < remaining s" by (rule step_decreases)
next
  assume "resyncOld L C sp ty old rc = Some (t, rest, rc')"
  then show "Type t = ty \<or> Type t = TokenEOF" by (rule resyncOld_stops)
next
  assume "resyncOld L C sp ty old rc = Some (t, rest, rc')"
  then show "suffix rest old" by (rule resyncOld_consumes)
next
  show "mergeLoopBounded (Suc (remaining s)) L C P s = Some (mergeLoop L C P s)"
    by (rule mergeLoopBounded_enough) simp
next
  assume "wellPlaced L C P s"
  then show "\<exists>out. mergeLoop L C P s = Some out" by (rule mergeLoop_returns)
qed

theorem merge_loop_terminates_witness:
  "step [''x = 1 // note''] ''x = 1 // note'' ''x = 1''
       (initialState (lexed noteOriginal) (lexed noteRendered))
     = Some (Continue \<lparr>newToken = hd (lexed noteRendered), oldToken = hd (lexed noteOriginal),
                       newTokens = tl (lexed noteRendered), oldTokens = tl (lexed noteOriginal),
                       result = ''x'', spaces = [], comment = []\<rparr>)
   \<and> remaining \<lparr>newToken = hd (lexed noteRendered), oldToken = hd (lexed noteOriginal),
                 newTokens = tl (lexed noteRendered), oldTokens = tl (lexed noteOriginal),
                 result = ''x'', spaces = [], comment = []\<rparr>
       < remaining (initialState (lexed noteOriginal) (lexed noteRendered))
   \<and> resyncOld [''x = 1 // note''] ''x = 1 // note'' [] TokenEqual (tl (lexed noteOriginal)) (''x'', [])
       = Some (lexed noteOriginal ! 2, drop 3 (lexed noteOriginal), ''x'', [])
   \<and> Type (lexed noteOriginal ! 2) = TokenEqual
   \<and> suffix (drop 3 (lexed noteOriginal)) (tl (lexed noteOriginal))
   \<and> mergeLoopBounded 8 [''x = 1 // note''] ''x = 1 // note'' ''x = 1''
         (initialState (lexed noteOriginal) (lexed noteRendered))
       = Some (Some ''x = 1 // note'')
   \<and> wellPlaced [''x = 1 // note''] ''x = 1 // note'' ''x = 1''
         (initialState (lexed noteOriginal) (lexed noteRendered))
   \<and> (\<exists>out. mergeLoop [''x = 1 // note''] ''x = 1 // note'' ''x = 1''
                (initialState (lexed noteOriginal) (lexed noteRendered)) = Some out)"
proof -
  let ?L = "[''x = 1 // note'']" and ?C = "''x = 1 // note''" and ?P = "''x = 1''"
  let ?s = "initialState (lexed noteOriginal) (lexed noteRendered)"
  let ?s' = "\<lparr>newToken = hd (lexed noteRendered), oldToken = hd (lexed noteOriginal),
               newTokens = tl (lexed noteRendered), oldTokens = tl (lexed noteOriginal),
               result = ''x'', spaces = [], comment = []\<rparr>"
  have h1: "step ?L ?C ?P ?s = Some (Continue ?s')" by code_simp
  have h2: "resyncOld ?L ?C [] TokenEqual (tl (lexed noteOriginal)) (''x'', [])
              = Some (lexed noteOriginal ! 2, drop 3 (lexed noteOriginal), ''x'', [])"
    by code_simp
  have h3: "mergeLoop ?L ?C ?P ?s = Some ''x = 1 // note''" by code_simp
  have h4: "Suc (remaining ?s) = 8" by code_simp
  have h5: "Type (lexed noteOriginal ! 2) = TokenEqual" by code_simp
  have h6: "wellPlaced ?L ?C ?P ?s" by code_simp
  from merge_loop_terminates [of ?L ?C ?P ?s ?s' "[]" TokenEqual "tl (lexed noteOriginal)"
      "(''x'', [])" "lexed noteOriginal ! 2" "drop 3 (lexed noteOriginal)" "(''x'', [])"]
    h1 h2 h3 h4 h5 h6
  show ?thesis by simp
qed

end
